theory Spec2Isabelle
  imports Main "HOL-Library.AList" "HOL-Library.List_Lexorder" "HOL-Library.Multiset"
    "HOL-Library.Word"
begin

section \<open>Values\<close>

text \<open>
  A Python \<open>str\<close> is a sequence of Unicode code points; \<open>sorted\<close> compares two of
  them code point by code point, which is the lexicographic order on lists of numbers.
\<close>

type_synonym pystr = "nat list"

definition ascii :: "string \<Rightarrow> pystr" where
  "ascii s = map of_char s"

text \<open>
  What \<open>json.load\<close> returns and \<open>json.dumps\<close> accepts. A \<open>dict\<close> keeps its keys in
  insertion order, so it is an association list; assigning to a key that is present
  replaces the value in place, assigning to a new key appends (\<open>AList.update\<close>).
  A float is its 64 bits; the program never inspects one.
\<close>

type_synonym pyfloat = "64 word"

datatype json =
    JNull
  | JBool bool
  | JInt int
  | JFloat pyfloat
  | JStr pystr
  | JArr "json list"
  | JObj "(pystr \<times> json) list"

datatype py_error =
    KeyError
  | TypeError
  | AttributeError
  | RequestException
  | HTTPError
  | JSONDecodeError
  | FileNotFoundError
  | OSError
  | UnicodeEncodeError

text \<open>\<open>x[key]\<close> for a string key.\<close>

fun getitem :: "json \<Rightarrow> pystr \<Rightarrow> py_error + json" where
  "getitem (JObj kvs) key = (case map_of kvs key of None \<Rightarrow> Inl KeyError | Some v \<Rightarrow> Inr v)"
| "getitem _ key = Inl TypeError"

text \<open>\<open>for e in x\<close>: a list yields its elements, a dict its keys, a string its characters.\<close>

fun py_iter :: "json \<Rightarrow> py_error + json list" where
  "py_iter (JArr xs) = Inr xs"
| "py_iter (JObj kvs) = Inr (map (\<lambda>kv. JStr (fst kv)) kvs)"
| "py_iter (JStr s) = Inr (map (\<lambda>c. JStr [c]) s)"
| "py_iter _ = Inl TypeError"

fun is_prefix :: "pystr \<Rightarrow> pystr \<Rightarrow> bool" where
  "is_prefix [] s = True"
| "is_prefix (c # cs) [] = False"
| "is_prefix (c # cs) (d # ds) = (c = d \<and> is_prefix cs ds)"

fun substring :: "pystr \<Rightarrow> pystr \<Rightarrow> bool" where
  "substring w [] = (w = [])"
| "substring w (d # ds) = (is_prefix w (d # ds) \<or> substring w ds)"

text \<open>\<open>word in x\<close>.\<close>

fun py_contains :: "json \<Rightarrow> pystr \<Rightarrow> py_error + bool" where
  "py_contains (JObj kvs) word = Inr (word \<in> set (map fst kvs))"
| "py_contains (JArr xs) word = Inr (JStr word \<in> set xs)"
| "py_contains (JStr s) word = Inr (substring word s)"
| "py_contains _ word = Inl TypeError"

text \<open>\<open>x[word] = v\<close>.\<close>

fun py_setitem :: "json \<Rightarrow> pystr \<Rightarrow> json \<Rightarrow> py_error + json" where
  "py_setitem (JObj kvs) word v = Inr (JObj (AList.update word v kvs))"
| "py_setitem _ word v = Inl TypeError"

text \<open>
  \<open>dict(sorted(x.items()))\<close>. The items are (key, value) tuples and the keys of a dict
  differ pairwise, so the tuples are ordered by their keys alone.
\<close>

fun sorted_items :: "json \<Rightarrow> py_error + json" where
  "sorted_items (JObj kvs) = Inr (JObj (sort_key fst kvs))"
| "sorted_items _ = Inl AttributeError"

text \<open>
  What \<open>file.write\<close> can encode as UTF-8: a string with no lone surrogate (U+D800 to
  U+DFFF, which \<open>json.load\<close> delivers for an escape such as \<open>\\ud800\<close>), and a document
  all of whose strings and keys are such. \<open>json.dumps\<close> with \<open>ensure_ascii=False\<close> leaves
  the characters of a string as they are.
\<close>

definition surrogate :: "nat \<Rightarrow> bool" where
  "surrogate c \<longleftrightarrow> 55296 \<le> c \<and> c \<le> 57343"

definition utf8_encodable :: "pystr \<Rightarrow> bool" where
  "utf8_encodable s = list_all (\<lambda>c. \<not> surrogate c) s"

fun encodable :: "json \<Rightarrow> bool" where
  "encodable (JStr s) = utf8_encodable s"
| "encodable (JArr xs) = list_all encodable xs"
| "encodable (JObj kvs) = list_all (\<lambda>kv. utf8_encodable (fst kv) \<and> encodable (snd kv)) kvs"
| "encodable v = True"

text \<open>\<open>s.split(sep)\<close> for a separator of one character.\<close>

fun str_split :: "nat \<Rightarrow> pystr \<Rightarrow> pystr list" where
  "str_split sep [] = [[]]"
| "str_split sep (c # cs) =
     (if c = sep then [] # str_split sep cs
      else (c # hd (str_split sep cs)) # tl (str_split sep cs))"

text \<open>\<open>str(i)\<close> for an int.\<close>

function digits :: "nat \<Rightarrow> pystr" where
  "digits n = (if n < 10 then [48 + n] else digits (n div 10) @ [48 + n mod 10])"
  by pat_completeness auto
termination
  by (relation "measure id") auto

definition str_int :: "int \<Rightarrow> pystr" where
  "str_int i = (if i < 0 then 45 # digits (nat (- i)) else digits (nat i))"

section \<open>The world outside the program\<close>

text \<open>
  The two GET requests the program sends to \<open>ajax.php\<close>: \<open>m=qs-ajax-results&query=word\<close>
  and \<open>m=qs-results&prefix=word&list_id=1\<close>. URL, timeout and headers are constants.
\<close>

datatype request = QsAjaxResults pystr | QsResults pystr

record response =
  status_code :: nat
  body :: "json option"

text \<open>
  A file holds a JSON document, or is missing, or holds a proper prefix of the text of
  a document (which is not a JSON document; the prefix may be empty). \<open>open(path, "w")\<close>
  truncates the file before anything is written to it, so a write that raises leaves
  such a prefix.
\<close>

datatype json_file = Missing | Holds json | Torn json

datatype outcome = OpenFails | WriteFails | WriteOk

text \<open>
  What the program takes from its libraries and its surroundings:
  \<^item> \<open>lower\<close> is \<open>str.lower\<close>;
  \<^item> \<open>finn_split\<close> is \<open>FinnSyll().split\<close>;
  \<^item> \<open>set_order\<close> is the order in which Python iterates a \<open>set\<close> of strings (a set is
    kept here as a list without duplicates, and iterated as \<open>set_order\<close> arranges it);
  \<^item> \<open>py_repr\<close> is \<open>repr\<close> on floats, lists and dicts;
  \<^item> \<open>http_get\<close> is \<open>requests.get\<close>: the answer to a request, given the requests sent
    before it (\<open>Inl\<close> when the call raises: timeout, connection error);
  \<^item> \<open>storage\<close> tells what the file system does at the n-th attempt to write the
    output file: refuse to open it, fail while the text is written, or take it;
  \<^item> \<open>overwrite_existing\<close> is the constant \<open>OVERWRITE_EXISTING\<close>.
\<close>

record env =
  lower :: "pystr \<Rightarrow> pystr"
  finn_split :: "pystr \<Rightarrow> pystr"
  set_order :: "pystr list \<Rightarrow> pystr list"
  py_repr :: "json \<Rightarrow> pystr"
  http_get :: "request list \<Rightarrow> request \<Rightarrow> py_error + response"
  storage :: "nat \<Rightarrow> outcome"
  overwrite_existing :: bool

record world =
  requests :: "request list"
  epithets_json :: json_file
  etymologies_json :: json_file
  writes :: "(json \<times> outcome) list"

section \<open>Kotus\<close>

record etymology =
  etymology_definition :: json
  etymology_url :: pystr

definition etym_link :: "pystr \<Rightarrow> pystr" where
  "etym_link etym_id = ascii ''https://kaino.kotus.fi/ses/?p=article&etym_id='' @ etym_id"

text \<open>What \<open>str.format\<close> puts in place of \<open>{etym_id}\<close>.\<close>

fun format_value :: "env \<Rightarrow> json \<Rightarrow> pystr" where
  "format_value env (JStr s) = s"
| "format_value env (JInt i) = str_int i"
| "format_value env JNull = ascii ''None''"
| "format_value env (JBool b) = (if b then ascii ''True'' else ascii ''False'')"
| "format_value env v = py_repr env v"

text \<open>\<open>any(e["value"] == word for e in records)\<close>, which stops at the first match.\<close>

fun any_value :: "json list \<Rightarrow> pystr \<Rightarrow> py_error + bool" where
  "any_value [] word = Inr False"
| "any_value (e # es) word =
     (case getitem e (ascii ''value'') of
        Inl err \<Rightarrow> Inl err
      | Inr v \<Rightarrow> if v = JStr word then Inr True else any_value es word)"

text \<open>\<open>next((e for e in records if e["hakusana"] == word), None)\<close>.\<close>

fun next_hakusana :: "json list \<Rightarrow> pystr \<Rightarrow> py_error + json option" where
  "next_hakusana [] word = Inr None"
| "next_hakusana (e # es) word =
     (case getitem e (ascii ''hakusana'') of
        Inl err \<Rightarrow> Inl err
      | Inr v \<Rightarrow> if v = JStr word then Inr (Some e) else next_hakusana es word)"

text \<open>\<open>response.json()["record"]\<close>, as the list that iterating it yields.\<close>

definition records :: "response \<Rightarrow> py_error + json list" where
  "records r =
     (case body r of
        None \<Rightarrow> Inl JSONDecodeError
      | Some data \<Rightarrow>
          (case getitem data (ascii ''record'') of
             Inl err \<Rightarrow> Inl err
           | Inr rs \<Rightarrow> py_iter rs))"

definition word_exists :: "env \<Rightarrow> pystr \<Rightarrow> request list \<Rightarrow> (py_error + bool) \<times> request list" where
  "word_exists env word log =
     (let log' = log @ [QsAjaxResults word] in
      case http_get env log (QsAjaxResults word) of
        Inl err \<Rightarrow> (Inl err, log')
      | Inr r \<Rightarrow>
          (case records r of
             Inl err \<Rightarrow> (Inl err, log')
           | Inr es \<Rightarrow> (any_value es word, log')))"

definition search :: "env \<Rightarrow> pystr \<Rightarrow> request list \<Rightarrow> (py_error + etymology option) \<times> request list" where
  "search env word log =
     (case word_exists env word log of
        (Inl err, log1) \<Rightarrow> (Inl err, log1)
      | (Inr False, log1) \<Rightarrow> (Inr None, log1)
      | (Inr True, log1) \<Rightarrow>
          (let log2 = log1 @ [QsResults word] in
           case http_get env log1 (QsResults word) of
             Inl err \<Rightarrow> (Inl err, log2)
           | Inr r \<Rightarrow>
               if 400 \<le> status_code r \<and> status_code r < 600 then (Inl HTTPError, log2)
               else
                 (case records r of
                    Inl err \<Rightarrow> (Inl err, log2)
                  | Inr es \<Rightarrow>
                      (case next_hakusana es word of
                         Inl err \<Rightarrow> (Inl err, log2)
                       | Inr None \<Rightarrow> (Inr None, log2)
                       | Inr (Some record) \<Rightarrow>
                           (case getitem record (ascii ''selite'') of
                              Inl err \<Rightarrow> (Inl err, log2)
                            | Inr selite \<Rightarrow>
                                (case getitem record (ascii ''etym_id'') of
                                   Inl err \<Rightarrow> (Inl err, log2)
                                 | Inr etym_id \<Rightarrow>
                                     (Inr (Some \<lparr>etymology_definition = selite,
                                            etymology_url = etym_link (format_value env etym_id)\<rparr>),
                                      log2)))))))"

section \<open>Words of an epithet\<close>

text \<open>
  The characters that \<open>re.sub\<close> leaves in place: \<open>a\<close> to \<open>z\<close> (97 to 122), the three
  letters U+00E4, U+00E5 and U+00F6 (228, 229, 246), the space (32) and the hyphen (45).
\<close>

definition permitted :: "nat \<Rightarrow> bool" where
  "permitted c \<longleftrightarrow> (97 \<le> c \<and> c \<le> 122) \<or> c = 228 \<or> c = 229 \<or> c = 246 \<or> c = 32 \<or> c = 45"

definition clean_epithet :: "env \<Rightarrow> pystr \<Rightarrow> pystr" where
  "clean_epithet env epithet = filter permitted (lower env epithet)"

text \<open>\<open>segments.update(xs)\<close>.\<close>

definition set_update :: "pystr list \<Rightarrow> pystr list \<Rightarrow> pystr list" where
  "set_update segments xs = fold (\<lambda>x s. if x \<in> set s then s else s @ [x]) xs segments"

text \<open>\<open>finn_syll.split(segment).split("=")\<close>; 61 is the character \<open>=\<close>.\<close>

definition compound_words :: "env \<Rightarrow> pystr \<Rightarrow> pystr list" where
  "compound_words env segment = str_split 61 (finn_split env segment)"

text \<open>The loop of \<open>to_words\<close> over \<open>list(segments)\<close>.\<close>

fun to_words_loop :: "env \<Rightarrow> pystr list \<Rightarrow> pystr list \<Rightarrow> pystr list" where
  "to_words_loop env [] segments = segments"
| "to_words_loop env (segment # rest) segments =
     to_words_loop env rest
       (if length (compound_words env segment) > 1
        then set_update segments (compound_words env segment)
        else segments)"

definition to_words :: "env \<Rightarrow> pystr \<Rightarrow> pystr list" where
  "to_words env epithet =
     (let segments = remdups (str_split 32 epithet) in
      to_words_loop env (set_order env segments) segments)"

section \<open>Etymologies of an epithet\<close>

text \<open>The value stored for a word: the dict of the two fields, or \<open>None\<close>.\<close>

definition entry :: "etymology option \<Rightarrow> json" where
  "entry etymology =
     (case etymology of
        None \<Rightarrow> JNull
      | Some e \<Rightarrow> JObj [(ascii ''definition'', etymology_definition e),
                        (ascii ''url'', JStr (etymology_url e))])"

fun search_words :: "env \<Rightarrow> pystr list \<Rightarrow> json \<Rightarrow> request list \<Rightarrow> (py_error + json) \<times> request list" where
  "search_words env [] epithet_etymologies log = (Inr epithet_etymologies, log)"
| "search_words env (word # words) epithet_etymologies log =
     (case py_contains epithet_etymologies word of
        Inl err \<Rightarrow> (Inl err, log)
      | Inr present \<Rightarrow>
          if present \<and> \<not> overwrite_existing env
          then search_words env words epithet_etymologies log
          else
            (case search env word log of
               (Inl err, log') \<Rightarrow> (Inl err, log')
             | (Inr etymology, log') \<Rightarrow>
                 (case py_setitem epithet_etymologies word (entry etymology) of
                    Inl err \<Rightarrow> (Inl err, log')
                  | Inr updated \<Rightarrow> search_words env words updated log')))"

definition search_etymologies :: "env \<Rightarrow> pystr \<Rightarrow> json \<Rightarrow> request list \<Rightarrow> (py_error + json) \<times> request list" where
  "search_etymologies env epithet epithet_etymologies log =
     (let cleaned_epithet = clean_epithet env epithet;
          words = to_words env cleaned_epithet
      in case search_words env (set_order env words) epithet_etymologies log of
           (Inl err, log') \<Rightarrow> (Inl err, log')
         | (Inr found, log') \<Rightarrow> (sorted_items found, log'))"

section \<open>The etymologies document\<close>

definition etymologies_key :: pystr where
  "etymologies_key = ascii ''etymologies''"

text \<open>\<open>etymologies.get(epithet, {})\<close>; lists and dicts are not hashable, and no key of
  a loaded dict equals a value that is not a string.\<close>

fun dict_get :: "json \<Rightarrow> json \<Rightarrow> py_error + json" where
  "dict_get (JObj kvs) (JStr k) = Inr (case map_of kvs k of None \<Rightarrow> JObj [] | Some v \<Rightarrow> v)"
| "dict_get (JObj kvs) (JArr xs) = Inl TypeError"
| "dict_get (JObj kvs) (JObj ys) = Inl TypeError"
| "dict_get (JObj kvs) k = Inr (JObj [])"
| "dict_get d k = Inl AttributeError"

text \<open>
  \<open>etymologies\<close> is the object stored under the key \<open>etymologies\<close> of the root, so the
  root that \<open>json.dumps\<close> sees holds its current value.
\<close>

definition document :: "(pystr \<times> json) list \<Rightarrow> json \<Rightarrow> json" where
  "document root etymologies = JObj (AList.update etymologies_key etymologies root)"

text \<open>
  \<open>with open(ETYMOLOGIES, "w") as file: file.write(json.dumps(...))\<close>. When the file
  cannot be opened nothing is touched. Once it is open it is empty; \<open>file.write\<close> then
  encodes the whole text before any of it reaches the file and raises
  \<open>UnicodeEncodeError\<close> on a lone surrogate, and otherwise the text is written as the
  storage allows. The log of writes records the document and how its write ended
  (\<open>WriteFails\<close> for every failure after the file was opened). Memory and recursion
  limits of the interpreter are not modelled.
\<close>

definition persist :: "env \<Rightarrow> json \<Rightarrow> world \<Rightarrow> (py_error + unit) \<times> world" where
  "persist env doc w =
     (case storage env (length (writes w)) of
        OpenFails \<Rightarrow> (Inl OSError, w\<lparr>writes := writes w @ [(doc, OpenFails)]\<rparr>)
      | how \<Rightarrow>
          if \<not> encodable doc
          then (Inl UnicodeEncodeError,
                w\<lparr>writes := writes w @ [(doc, WriteFails)], etymologies_json := Torn doc\<rparr>)
          else if how = WriteFails
          then (Inl OSError,
                w\<lparr>writes := writes w @ [(doc, WriteFails)], etymologies_json := Torn doc\<rparr>)
          else (Inr (),
                w\<lparr>writes := writes w @ [(doc, WriteOk)], etymologies_json := Holds doc\<rparr>))"

text \<open>
  The first two statements of the loop body of \<open>update_etymologies\<close>, which leave the
  new value of \<open>etymologies\<close>; \<open>epithet.lower()\<close> raises unless the epithet is a string.
\<close>

definition assign_etymologies :: "env \<Rightarrow> json \<Rightarrow> json \<Rightarrow> request list \<Rightarrow> (py_error + json) \<times> request list" where
  "assign_etymologies env epithet etymologies log =
     (case dict_get etymologies epithet of
        Inl err \<Rightarrow> (Inl err, log)
      | Inr epithet_etymologies \<Rightarrow>
          (case epithet of
             JStr e \<Rightarrow>
               (case search_etymologies env e epithet_etymologies log of
                  (Inl err, log') \<Rightarrow> (Inl err, log')
                | (Inr found, log') \<Rightarrow> (py_setitem etymologies e found, log'))
           | _ \<Rightarrow> (Inl AttributeError, log)))"

text \<open>The loop of \<open>update_etymologies\<close>: assign, then persist, for each epithet in turn.\<close>

fun update_loop :: "env \<Rightarrow> json list \<Rightarrow> (pystr \<times> json) list \<Rightarrow> json \<Rightarrow> world \<Rightarrow> (py_error + json) \<times> world" where
  "update_loop env [] root etymologies w = (Inr (document root etymologies), w)"
| "update_loop env (epithet # epithets) root etymologies w =
     (case assign_etymologies env epithet etymologies (requests w) of
        (Inl err, log) \<Rightarrow> (Inl err, w\<lparr>requests := log\<rparr>)
      | (Inr etymologies', log) \<Rightarrow>
          (case persist env (document root etymologies') (w\<lparr>requests := log\<rparr>) of
             (Inl err, w') \<Rightarrow> (Inl err, w')
           | (Inr u, w') \<Rightarrow> update_loop env epithets root etymologies' w'))"

text \<open>\<open>etymologies_root.setdefault("etymologies", {})\<close> needs a dict.\<close>

definition update_etymologies :: "env \<Rightarrow> json \<Rightarrow> json \<Rightarrow> world \<Rightarrow> (py_error + json) \<times> world" where
  "update_etymologies env etymologies_root epithets_root w =
     (case etymologies_root of
        JObj root \<Rightarrow>
          (let etymologies = (case map_of root etymologies_key of None \<Rightarrow> JObj [] | Some v \<Rightarrow> v) in
           case getitem epithets_root (ascii ''epithets'') of
             Inl err \<Rightarrow> (Inl err, w)
           | Inr epithets \<Rightarrow>
               (case py_iter epithets of
                  Inl err \<Rightarrow> (Inl err, w)
                | Inr es \<Rightarrow> update_loop env es root etymologies w))
      | _ \<Rightarrow> (Inl AttributeError, w))"

definition main :: "env \<Rightarrow> world \<Rightarrow> (py_error + json) \<times> world" where
  "main env w =
     (case epithets_json w of
        Missing \<Rightarrow> (Inl FileNotFoundError, w)
      | Torn d \<Rightarrow> (Inl JSONDecodeError, w)
      | Holds epithets_root \<Rightarrow>
          (case etymologies_json w of
             Missing \<Rightarrow> update_etymologies env (JObj []) epithets_root w
           | Torn d \<Rightarrow> (Inl JSONDecodeError, w)
           | Holds etymologies_root \<Rightarrow> update_etymologies env etymologies_root epithets_root w))"

section \<open>Assumptions on the surroundings\<close>

text \<open>Iterating a set visits each of its elements once, in some order.\<close>

definition arranges :: "env \<Rightarrow> bool" where
  "arranges env \<longleftrightarrow> (\<forall>xs. mset (set_order env xs) = mset xs)"

section \<open>A deterministic stand-in for the surroundings\<close>

text \<open>
  Lower-casing of ASCII letters, a splitter that knows one compound, a set that iterates
  back to front, and a lexicon that knows \<open>vanha\<close> (definition \<open>old\<close>, id 5), lists \<open>piika\<close>
  in its quick search but not in its articles, times out on \<open>katko\<close>, and knows
  nothing else.
\<close>

definition ascii_lower :: "pystr \<Rightarrow> pystr" where
  "ascii_lower s = map (\<lambda>c. if 65 \<le> c \<and> c \<le> 90 then c + 32 else c) s"

definition fake_split :: "pystr \<Rightarrow> pystr" where
  "fake_split segment =
     (if segment = ascii ''vanhapiika'' then ascii ''vanha=piika'' else segment)"

definition answer :: "json list \<Rightarrow> py_error + response" where
  "answer rs = Inr \<lparr>status_code = 200, body = Some (JObj [(ascii ''record'', JArr rs)])\<rparr>"

fun fake_lexicon :: "request list \<Rightarrow> request \<Rightarrow> py_error + response" where
  "fake_lexicon log (QsAjaxResults word) =
     (if word = ascii ''vanha''
      then answer [JObj [(ascii ''value'', JStr (ascii ''vanhahko''))],
                   JObj [(ascii ''value'', JStr (ascii ''vanha''))]]
      else if word = ascii ''piika''
      then answer [JObj [(ascii ''value'', JStr (ascii ''piika''))]]
      else if word = ascii ''katko''
      then Inl RequestException
      else answer [])"
| "fake_lexicon log (QsResults word) =
     (if word = ascii ''vanha''
      then answer [JObj [(ascii ''hakusana'', JStr (ascii ''vanha'')),
                         (ascii ''selite'', JStr (ascii ''old'')),
                         (ascii ''etym_id'', JInt 5)]]
      else if word = ascii ''piika''
      then answer [JObj [(ascii ''hakusana'', JStr (ascii ''piikainen'')),
                         (ascii ''selite'', JStr (ascii ''prickly'')),
                         (ascii ''etym_id'', JInt 7)]]
      else answer [])"

definition fake_env :: "(request list \<Rightarrow> request \<Rightarrow> py_error + response) \<Rightarrow> (nat \<Rightarrow> outcome) \<Rightarrow> bool \<Rightarrow> env" where
  "fake_env net disk overwrite =
     \<lparr>lower = ascii_lower, finn_split = fake_split, set_order = rev, py_repr = (\<lambda>v. []),
      http_get = net, storage = disk, overwrite_existing = overwrite\<rparr>"

definition demo_env :: env where
  "demo_env = fake_env fake_lexicon (\<lambda>n. WriteOk) False"

section \<open>Reading a document\<close>

text \<open>The value under \<open>etymologies\<close> in a document (an empty dict when there is none).\<close>

definition etymologies_of :: "json \<Rightarrow> json" where
  "etymologies_of doc = (case getitem doc etymologies_key of Inr v \<Rightarrow> v | Inl err \<Rightarrow> JObj [])"

text \<open>The dict that a document holds for an epithet, if it holds one.\<close>

definition submap :: "json \<Rightarrow> pystr \<Rightarrow> (pystr \<times> json) list option" where
  "submap doc epithet =
     (case getitem doc etymologies_key of
        Inr etymologies \<Rightarrow>
          (case getitem etymologies epithet of Inr (JObj m) \<Rightarrow> Some m | _ \<Rightarrow> None)
      | Inl err \<Rightarrow> None)"

text \<open>
  An epithet is settled in a document when its dict there has its keys in order and
  holds every word of the epithet.
\<close>

definition settled :: "env \<Rightarrow> json \<Rightarrow> pystr \<Rightarrow> bool" where
  "settled env doc epithet =
     (case submap doc epithet of
        None \<Rightarrow> False
      | Some m \<Rightarrow> sorted (map fst m)
                \<and> set (to_words env (clean_epithet env epithet)) \<subseteq> set (map fst m))"

text \<open>The epithets that the loop visits (none when the input document has no such list).\<close>

definition epithets_of :: "json \<Rightarrow> json list" where
  "epithets_of epithets_root =
     (case getitem epithets_root (ascii ''epithets'') of
        Inl err \<Rightarrow> []
      | Inr epithets \<Rightarrow> (case py_iter epithets of Inl err \<Rightarrow> [] | Inr es \<Rightarrow> es))"

text \<open>What \<open>main\<close> loads as the etymologies document.\<close>

definition loaded :: "world \<Rightarrow> json" where
  "loaded w = (case etymologies_json w of Holds d \<Rightarrow> d | _ \<Rightarrow> JObj [])"

text \<open>The keys of a document other than \<open>etymologies\<close>, with their values, in order.\<close>

definition other_keys :: "json \<Rightarrow> (pystr \<times> json) list option" where
  "other_keys doc =
     (case doc of
        JObj root \<Rightarrow> Some (filter (\<lambda>kv. fst kv \<noteq> etymologies_key) root)
      | _ \<Rightarrow> None)"

text \<open>The keys of the dict of an epithet are in strictly ascending order.\<close>

definition strictly_sorted :: "json \<Rightarrow> pystr \<Rightarrow> bool" where
  "strictly_sorted doc epithet =
     (case submap doc epithet of None \<Rightarrow> False | Some m \<Rightarrow> sorted_wrt (<) (map fst m))"

text \<open>
  In a Python dict no key occurs twice; an association list can say so only as a
  property. This one says it of the dicts of words under \<open>etymologies\<close>.
\<close>

definition unique_word_keys :: "json \<Rightarrow> bool" where
  "unique_word_keys etymologies =
     (case etymologies of
        JObj store \<Rightarrow>
          list_all (\<lambda>kv. case snd kv of JObj m \<Rightarrow> distinct (map fst m) | _ \<Rightarrow> True) store
      | _ \<Rightarrow> True)"

text \<open>Invariants of the loop over the epithets, for the epithets seen so far.\<close>

definition all_settled :: "env \<Rightarrow> (pystr \<times> json) list \<Rightarrow> json list \<Rightarrow> json \<Rightarrow> bool" where
  "all_settled env root seen etymologies \<longleftrightarrow>
     (\<forall>x \<in> set seen. \<exists>e. x = JStr e \<and> settled env (document root etymologies) e)"

definition all_strict :: "(pystr \<times> json) list \<Rightarrow> json list \<Rightarrow> json \<Rightarrow> bool" where
  "all_strict root seen etymologies \<longleftrightarrow>
     unique_word_keys etymologies
     \<and> (\<forall>e. JStr e \<in> set seen \<longrightarrow> strictly_sorted (document root etymologies) e)"

section \<open>The scenario of one epithet\<close>

definition scenario_store :: json where
  "scenario_store =
     JObj [(ascii ''vanha akka'',
            JObj [(ascii ''akka'', JNull),
                  (ascii ''vanha'',
                   JObj [(ascii ''definition'', JStr (ascii ''old'')),
                         (ascii ''url'', JStr (ascii ''https://kaino.kotus.fi/ses/?p=article&etym_id=5''))])])]"

definition scenario_input :: json where
  "scenario_input = JObj [(ascii ''epithets'', JArr [JStr (ascii ''vanha akka'')])]"

definition scenario_doc :: json where
  "scenario_doc = JObj [(ascii ''etymologies'', scenario_store)]"

definition scenario_world :: world where
  "scenario_world =
     \<lparr>requests = [], epithets_json = Holds scenario_input, etymologies_json = Missing,
      writes = []\<rparr>"

section \<open>A run of the stand-in on one epithet\<close>

text \<open>
  The epithet \<open>Vanhapiika, akka!\<close> has the words \<open>vanhapiika\<close>, \<open>akka\<close>, \<open>vanha\<close> and \<open>piika\<close>;
  the stand-in asks for them back to front.
\<close>

definition demo_epithet :: pystr where
  "demo_epithet = ascii ''Vanhapiika, akka!''"

definition demo_submap :: json where
  "demo_submap =
     JObj [(ascii ''akka'', JNull),
           (ascii ''piika'', JNull),
           (ascii ''vanha'',
            JObj [(ascii ''definition'', JStr (ascii ''old'')),
                  (ascii ''url'', JStr (ascii ''https://kaino.kotus.fi/ses/?p=article&etym_id=5''))]),
           (ascii ''vanhapiika'', JNull)]"

definition demo_requests :: "request list" where
  "demo_requests =
     [QsAjaxResults (ascii ''piika''), QsResults (ascii ''piika''),
      QsAjaxResults (ascii ''vanha''), QsResults (ascii ''vanha''),
      QsAjaxResults (ascii ''akka''),
      QsAjaxResults (ascii ''vanhapiika'')]"

section \<open>A run of the stand-in on an earlier document\<close>

text \<open>
  The earlier document has a key of its own and, for the epithet, a dict out of order.
  \<open>demo_doc\<close> and \<open>demo_after\<close> are what a run of the stand-in leaves, \<open>crash_after\<close> what
  it leaves when the write fails.
\<close>

definition demo_root :: "(pystr \<times> json) list" where
  "demo_root =
     [(ascii ''note'', JStr (ascii ''keep'')),
      (ascii ''etymologies'',
       JObj [(demo_epithet, JObj [(ascii ''zeta'', JNull), (ascii ''akka'', JStr (ascii ''known''))])])]"

definition demo_input :: json where
  "demo_input = JObj [(ascii ''epithets'', JArr [JStr demo_epithet])]"

definition demo_world :: world where
  "demo_world =
     \<lparr>requests = [], epithets_json = Holds demo_input, etymologies_json = Holds (JObj demo_root),
      writes = []\<rparr>"

definition demo_doc :: json where
  "demo_doc =
     JObj [(ascii ''note'', JStr (ascii ''keep'')),
           (ascii ''etymologies'',
            JObj [(demo_epithet,
                   JObj [(ascii ''akka'', JStr (ascii ''known'')),
                         (ascii ''piika'', JNull),
                         (ascii ''vanha'',
                          JObj [(ascii ''definition'', JStr (ascii ''old'')),
                                (ascii ''url'', JStr (ascii ''https://kaino.kotus.fi/ses/?p=article&etym_id=5''))]),
                         (ascii ''vanhapiika'', JNull),
                         (ascii ''zeta'', JNull)])])]"

definition demo_log :: "request list" where
  "demo_log =
     [QsAjaxResults (ascii ''piika''), QsResults (ascii ''piika''),
      QsAjaxResults (ascii ''vanha''), QsResults (ascii ''vanha''),
      QsAjaxResults (ascii ''vanhapiika'')]"

definition demo_after :: world where
  "demo_after =
     \<lparr>requests = demo_log, epithets_json = Holds demo_input, etymologies_json = Holds demo_doc,
      writes = [(demo_doc, WriteOk)]\<rparr>"



text \<open>
  A surrounding in which the first write succeeds and every later one fails after the
  file was opened, and what a run on two epithets leaves there.
\<close>

definition torn_env :: env where
  "torn_env = fake_env fake_lexicon (\<lambda>n. if n = 0 then WriteOk else WriteFails) False"

definition torn_doc :: json where
  "torn_doc =
     JObj [(ascii ''note'', JStr (ascii ''keep'')),
           (ascii ''etymologies'',
            JObj [(demo_epithet,
                   JObj [(ascii ''akka'', JStr (ascii ''known'')),
                         (ascii ''piika'', JNull),
                         (ascii ''vanha'',
                          JObj [(ascii ''definition'', JStr (ascii ''old'')),
                                (ascii ''url'', JStr (ascii ''https://kaino.kotus.fi/ses/?p=article&etym_id=5''))]),
                         (ascii ''vanhapiika'', JNull),
                         (ascii ''zeta'', JNull)]),
                  (ascii ''akka'', JObj [(ascii ''akka'', JNull)])])]"

definition torn_after :: world where
  "torn_after =
     \<lparr>requests = demo_log @ [QsAjaxResults (ascii ''akka'')], epithets_json = Holds demo_input,
      etymologies_json = Torn torn_doc,
      writes = [(demo_doc, WriteOk), (torn_doc, WriteFails)]\<rparr>"

text \<open>
  A surrounding in which the first write succeeds and every later one cannot open the
  file, and what a run on two epithets leaves there.
\<close>

definition shut_env :: env where
  "shut_env = fake_env fake_lexicon (\<lambda>n. if n = 0 then WriteOk else OpenFails) False"

definition shut_after :: world where
  "shut_after =
     \<lparr>requests = demo_log @ [QsAjaxResults (ascii ''akka'')], epithets_json = Holds demo_input,
      etymologies_json = Holds demo_doc,
      writes = [(demo_doc, WriteOk), (torn_doc, OpenFails)]\<rparr>"

section \<open>The writes of a run\<close>



section \<open>An epithet that is a lone surrogate\<close>





section \<open>Splitting strings and sets of words\<close>

lemma str_split_nonempty: "str_split sep s \<noteq> []"
  by (induction s) auto

lemma concat_str_split: "concat (str_split sep s) = filter (\<lambda>c. c \<noteq> sep) s"
proof (induction s)
  case Nil
  then show ?case by simp
next
  case (Cons c s)
  then show ?case
    by (cases "str_split sep s") (auto simp: str_split_nonempty)
qed

lemma str_split_no_sep: "sep \<notin> set s \<Longrightarrow> str_split sep s = [s]"
  by (induction s) auto

lemma set_set_update: "set (set_update segments xs) = set segments \<union> set xs"
  unfolding set_update_def by (induction xs arbitrary: segments) auto

lemma distinct_set_update: "distinct segments \<Longrightarrow> distinct (set_update segments xs)"
  unfolding set_update_def by (induction xs arbitrary: segments) auto

lemma set_update_absorb: "set xs \<subseteq> set segments \<Longrightarrow> set_update segments xs = segments"
  unfolding set_update_def by (induction xs arbitrary: segments) auto

lemma set_to_words_loop:
  "set (to_words_loop env visit segments) =
     set segments \<union>
     (\<Union>t \<in> {t \<in> set visit. 1 < length (compound_words env t)}. set (compound_words env t))"
  by (induction visit arbitrary: segments) (auto simp: set_set_update)

lemma distinct_to_words_loop:
  "distinct segments \<Longrightarrow> distinct (to_words_loop env visit segments)"
  by (induction visit arbitrary: segments) (auto simp: distinct_set_update)

lemma arranges_set: "arranges env \<Longrightarrow> set (set_order env xs) = set xs"
  unfolding arranges_def by (metis set_mset_mset)

lemma arranges_distinct: "arranges env \<Longrightarrow> distinct (set_order env xs) = distinct xs"
  unfolding arranges_def by (metis mset_eq_imp_distinct_iff)

lemma arranges_fake_env: "arranges (fake_env net disk overwrite)"
  by (simp add: arranges_def fake_env_def)

lemma demo_fields:
  "lower demo_env = ascii_lower" "finn_split demo_env = fake_split" "set_order demo_env = rev"
  "http_get demo_env = fake_lexicon" "storage demo_env = (\<lambda>n. WriteOk)"
  "overwrite_existing demo_env = False"
  by (simp_all add: demo_env_def fake_env_def)

lemma set_to_words:
  "arranges env \<Longrightarrow> set (to_words env c) =
     set (str_split 32 c) \<union>
     (\<Union>t \<in> {t \<in> set (str_split 32 c). 1 < length (compound_words env t)}.
        set (compound_words env t))"
  by (simp add: to_words_def Let_def set_to_words_loop arranges_set)

lemma distinct_to_words: "distinct (to_words env c)"
  by (simp add: to_words_def Let_def distinct_to_words_loop)

lemma demo_clean:
  "clean_epithet demo_env (ascii ''Vanhapiika, akka!'') = ascii ''vanhapiika akka''"
  by (simp add: demo_env_def fake_env_def clean_epithet_def ascii_lower_def ascii_def
      permitted_def)

lemma demo_compound: "compound_words demo_env (ascii ''vanhapiika'') = [ascii ''vanha'', ascii ''piika'']"
  by (simp add: demo_env_def fake_env_def compound_words_def fake_split_def ascii_def)

lemma demo_segments:
  "str_split 32 (ascii ''vanhapiika akka'') = [ascii ''vanhapiika'', ascii ''akka'']"
  by (simp add: ascii_def)

text \<open>
  C8. The words of an epithet are a list without duplicates that holds every token
  between two spaces of the cleaned epithet; the parts of every token that the splitter
  divides into more than one part are among them as well, the token itself stays, and
  nothing else is among them.
\<close>

theorem to_words_monotonic:
  assumes "arranges env"
  shows "distinct (to_words env (clean_epithet env E))
       \<and> set (str_split 32 (clean_epithet env E)) \<subseteq> set (to_words env (clean_epithet env E))
       \<and> (\<forall>t \<in> set (str_split 32 (clean_epithet env E)).
             1 < length (compound_words env t) \<longrightarrow>
               set (compound_words env t) \<subseteq> set (to_words env (clean_epithet env E)))
       \<and> (\<forall>x \<in> set (to_words env (clean_epithet env E)).
             x \<in> set (str_split 32 (clean_epithet env E))
             \<or> (\<exists>t \<in> set (str_split 32 (clean_epithet env E)).
                  1 < length (compound_words env t) \<and> x \<in> set (compound_words env t)))"
  using assms by (auto simp: set_to_words distinct_to_words)

theorem to_words_monotonic_witness:
  "arranges demo_env
   \<and> ascii ''vanhapiika'' \<in> set (str_split 32 (clean_epithet demo_env (ascii ''Vanhapiika, akka!'')))
   \<and> 1 < length (compound_words demo_env (ascii ''vanhapiika''))
   \<and> {ascii ''vanhapiika'', ascii ''akka'', ascii ''vanha'', ascii ''piika''}
       \<subseteq> set (to_words demo_env (clean_epithet demo_env (ascii ''Vanhapiika, akka!'')))"
proof -
  have a: "arranges demo_env"
    by (simp add: demo_env_def arranges_fake_env)
  show ?thesis
    using a to_words_monotonic [OF a, of "ascii ''Vanhapiika, akka!''"]
    by (simp add: demo_clean demo_segments demo_compound)
qed
section \<open>The loop over the words\<close>

lemma search_log: "\<exists>rest. snd (search env word log) = log @ QsAjaxResults word # rest"
  by (auto simp: search_def word_exists_def Let_def split: sum.splits bool.splits option.splits)

lemma search_words_obj:
  "search_words env ws ee log = (Inr r, log') \<Longrightarrow> sorted_items r = Inr s \<Longrightarrow> \<exists>m. ee = JObj m"
proof (induction ws arbitrary: ee log)
  case Nil
  then show ?case by (cases ee) auto
next
  case (Cons word ws)
  then show ?case
    by (cases ee) (auto split: sum.splits if_splits prod.splits)
qed

lemma search_words_keys:
  "search_words env ws (JObj m) log = (Inr r, log') \<Longrightarrow>
     \<exists>m'. r = JObj m' \<and> set (map fst m') = set (map fst m) \<union> set ws
        \<and> (distinct (map fst m) \<longrightarrow> distinct (map fst m'))
        \<and> (\<forall>k. k \<notin> set ws \<longrightarrow> map_of m' k = map_of m k)"
proof (induction ws arbitrary: m log)
  case Nil
  then show ?case by auto
next
  case (Cons word ws)
  show ?case
  proof (cases "word \<in> set (map fst m) \<and> \<not> overwrite_existing env")
    case True
    with Cons.prems have "search_words env ws (JObj m) log = (Inr r, log')" by simp
    from Cons.IH [OF this] True show ?thesis by force
  next
    case False
    with Cons.prems obtain etymology log1 where
      s: "search env word log = (Inr etymology, log1)" and
      r: "search_words env ws (JObj (AList.update word (entry etymology) m)) log1 = (Inr r, log')"
      by (auto split: sum.splits prod.splits)
    from Cons.IH [OF r] obtain m' where
      m': "r = JObj m'"
      "set (map fst m') = set (map fst (AList.update word (entry etymology) m)) \<union> set ws"
      "distinct (map fst (AList.update word (entry etymology) m)) \<longrightarrow> distinct (map fst m')"
      "\<forall>k. k \<notin> set ws \<longrightarrow> map_of m' k = map_of (AList.update word (entry etymology) m) k"
      by blast
    have "set (map fst (AList.update word (entry etymology) m)) = insert word (set (map fst m))"
      using AList.dom_update [of word "entry etymology" m] by simp
    with m' show ?thesis
      by (auto simp: AList.distinct_update AList.update_conv')
  qed
qed

lemma search_words_skip:
  "\<not> overwrite_existing env \<Longrightarrow> set ws \<subseteq> set (map fst m) \<Longrightarrow>
     search_words env ws (JObj m) log = (Inr (JObj m), log)"
  by (induction ws) auto

lemma search_words_log: "\<exists>rest. snd (search_words env ws ee log) = log @ rest"
proof (induction ws arbitrary: ee log)
  case Nil
  then show ?case by simp
next
  case (Cons word ws)
  obtain rest1 where s: "snd (search env word log) = log @ rest1"
    using search_log [of env word log] by auto
  show ?case
  proof (cases "py_contains ee word")
    case (Inl err)
    then show ?thesis by simp
  next
    case (Inr present)
    show ?thesis
    proof (cases "present \<and> \<not> overwrite_existing env")
      case True
      with Inr Cons.IH [of ee log] show ?thesis by simp
    next
      case False
      show ?thesis
      proof (cases "search env word log")
        case (Pair res log1)
        with s have l1: "log1 = log @ rest1" by simp
        show ?thesis
        proof (cases res)
          case (Inl err)
          with Pair Inr False l1 show ?thesis by auto
        next
          case r: (Inr etymology)
          show ?thesis
          proof (cases "py_setitem ee word (entry etymology)")
            case (Inl err)
            with Pair Inr r False l1 show ?thesis by auto
          next
            case u: (Inr updated)
            from Cons.IH [of updated log1] obtain rest2 where
              "snd (search_words env ws updated log1) = log1 @ rest2" by auto
            with Pair Inr r u False l1 show ?thesis by auto
          qed
        qed
      qed
    qed
  qed
qed

lemma search_words_absent:
  assumes "search_words env ws (JObj m) log = (Inr (JObj m'), log')"
      and "word \<in> set ws" and "distinct ws"
      and "overwrite_existing env \<or> word \<notin> set (map fst m)"
      and "\<forall>h. fst (search env word h) = Inr None"
  shows "map_of m' word = Some JNull"
  using assms
proof (induction ws arbitrary: m log)
  case Nil
  then show ?case by simp
next
  case (Cons a ws)
  show ?case
  proof (cases "a \<in> set (map fst m) \<and> \<not> overwrite_existing env")
    case True
    with Cons.prems have r: "search_words env ws (JObj m) log = (Inr (JObj m'), log')" by simp
    from True Cons.prems(4) have "a \<noteq> word" by auto
    with Cons.prems have "word \<in> set ws" "distinct ws" by auto
    from Cons.IH [OF r this Cons.prems(4) Cons.prems(5)] show ?thesis .
  next
    case False
    with Cons.prems(1) obtain etymology log1 where
      s: "search env a log = (Inr etymology, log1)" and
      r: "search_words env ws (JObj (AList.update a (entry etymology) m)) log1 = (Inr (JObj m'), log')"
      by (auto split: sum.splits prod.splits)
    show ?thesis
    proof (cases "a = word")
      case True
      with s Cons.prems(5) have "etymology = None"
        by (metis fst_conv sum.inject(2))
      with True have e: "map_of (AList.update a (entry etymology) m) word = Some JNull"
        by (simp add: AList.update_conv' entry_def)
      from True Cons.prems(3) have "word \<notin> set ws" by simp
      with search_words_keys [OF r] e show ?thesis by auto
    next
      case False
      with Cons.prems have w: "word \<in> set ws" "distinct ws" by auto
      have "overwrite_existing env \<or> word \<notin> set (map fst (AList.update a (entry etymology) m))"
        using Cons.prems(4) False AList.dom_update [of a "entry etymology" m] by auto
      from Cons.IH [OF r w this Cons.prems(5)] show ?thesis .
    qed
  qed
qed

section \<open>One epithet\<close>

lemma getitem_document [simp]: "getitem (document root etymologies) etymologies_key = Inr etymologies"
  by (simp add: document_def AList.update_conv')

lemma submap_document:
  "submap (document root (JObj store)) e = (case map_of store e of Some (JObj m) \<Rightarrow> Some m | _ \<Rightarrow> None)"
  by (simp add: submap_def split: option.splits json.splits)

lemma map_of_filter_key:
  "map_of xs k = (case filter (\<lambda>y. fst y = k) xs of [] \<Rightarrow> None | y # ys \<Rightarrow> Some (snd y))"
  by (induction xs) auto

lemma map_of_sort_key: "map_of (sort_key fst xs) k = map_of xs k"
  by (simp add: map_of_filter_key sort_key_stable)

lemma search_etymologies_result:
  assumes "search_etymologies env e ee log = (Inr r, log')" and "arranges env"
  shows "\<exists>m m'. ee = JObj m \<and> r = JObj m' \<and> sorted (map fst m')
          \<and> set (map fst m') = set (map fst m) \<union> set (to_words env (clean_epithet env e))
          \<and> (distinct (map fst m) \<longrightarrow> distinct (map fst m'))
          \<and> (\<forall>k. k \<notin> set (to_words env (clean_epithet env e)) \<longrightarrow> map_of m' k = map_of m k)"
proof -
  let ?ws = "set_order env (to_words env (clean_epithet env e))"
  from assms(1) obtain found where
    f: "search_words env ?ws ee log = (Inr found, log')" and s: "sorted_items found = Inr r"
    by (auto simp: search_etymologies_def Let_def split: prod.splits sum.splits)
  from search_words_obj [OF f s] obtain m where m: "ee = JObj m" by blast
  from search_words_keys [OF f [unfolded m]] obtain m1 where
    m1: "found = JObj m1" "set (map fst m1) = set (map fst m) \<union> set ?ws"
       "distinct (map fst m) \<longrightarrow> distinct (map fst m1)"
       "\<forall>k. k \<notin> set ?ws \<longrightarrow> map_of m1 k = map_of m k"
    by blast
  from s m1(1) have r: "r = JObj (sort_key fst m1)" by simp
  have "sorted (map fst (sort_key fst m1))" by simp
  moreover have "set (map fst (sort_key fst m1)) = set (map fst m1)" by simp
  moreover have "distinct (map fst (sort_key fst m1)) = distinct (map fst m1)"
    by (metis mset_map mset_sort mset_eq_imp_distinct_iff)
  ultimately show ?thesis
    using m r m1 arranges_set [OF assms(2)] by (auto simp: map_of_sort_key)
qed

lemma search_etymologies_skip:
  assumes "\<not> overwrite_existing env" and "arranges env"
      and "set (to_words env (clean_epithet env e)) \<subseteq> set (map fst m)"
      and "sorted (map fst m)"
  shows "search_etymologies env e (JObj m) log = (Inr (JObj m), log)"
proof -
  have "set (set_order env (to_words env (clean_epithet env e))) \<subseteq> set (map fst m)"
    using assms(2,3) by (simp add: arranges_set)
  from search_words_skip [OF assms(1) this]
  show ?thesis using assms(4) by (simp add: search_etymologies_def sort_key_id_if_sorted)
qed

lemma search_etymologies_log: "\<exists>rest. snd (search_etymologies env e ee log) = log @ rest"
  using search_words_log [of env "set_order env (to_words env (clean_epithet env e))" ee log]
  by (auto simp: search_etymologies_def Let_def split: prod.splits sum.splits)

lemma assign_etymologies_log: "\<exists>rest. snd (assign_etymologies env epithet etymologies log) = log @ rest"
proof (cases "dict_get etymologies epithet")
  case (Inl err)
  then show ?thesis by (simp add: assign_etymologies_def)
next
  case (Inr ee)
  show ?thesis
  proof (cases epithet)
    case (JStr e)
    with Inr search_etymologies_log [of env e ee log] show ?thesis
      by (auto simp: assign_etymologies_def split: prod.splits sum.splits)
  qed (use Inr in \<open>simp_all add: assign_etymologies_def\<close>)
qed

lemma assign_etymologies_result:
  assumes "assign_etymologies env epithet etymologies log = (Inr etymologies', log')"
      and "arranges env"
  shows "\<exists>e store m m'. epithet = JStr e \<and> etymologies = JObj store
          \<and> (case map_of store e of None \<Rightarrow> JObj [] | Some v \<Rightarrow> v) = JObj m
          \<and> etymologies' = JObj (AList.update e (JObj m') store)
          \<and> sorted (map fst m')
          \<and> set (map fst m') = set (map fst m) \<union> set (to_words env (clean_epithet env e))
          \<and> (distinct (map fst m) \<longrightarrow> distinct (map fst m'))
          \<and> (\<forall>k. k \<notin> set (to_words env (clean_epithet env e)) \<longrightarrow> map_of m' k = map_of m k)"
proof -
  from assms(1) obtain ee where g: "dict_get etymologies epithet = Inr ee"
    by (auto simp: assign_etymologies_def split: sum.splits)
  with assms(1) obtain e where e: "epithet = JStr e"
    by (cases epithet) (auto simp: assign_etymologies_def)
  from g e obtain store where st: "etymologies = JObj store"
    by (cases etymologies) auto
  from g e st have ee: "ee = (case map_of store e of None \<Rightarrow> JObj [] | Some v \<Rightarrow> v)" by simp
  from assms(1) g e st obtain found where
    f: "search_etymologies env e ee log = (Inr found, log')"
    and u: "etymologies' = JObj (AList.update e found store)"
    by (auto simp: assign_etymologies_def split: sum.splits prod.splits)
  from search_etymologies_result [OF f assms(2)] e st ee u show ?thesis by auto
qed

lemma assign_etymologies_skip:
  assumes "\<not> overwrite_existing env" and "arranges env"
      and "settled env (document root (JObj store)) e"
  shows "assign_etymologies env (JStr e) (JObj store) log = (Inr (JObj store), log)"
proof -
  from assms(3) obtain m where m: "map_of store e = Some (JObj m)" "sorted (map fst m)"
    "set (to_words env (clean_epithet env e)) \<subseteq> set (map fst m)"
    by (auto simp: settled_def submap_document split: option.splits json.splits)
  from search_etymologies_skip [OF assms(1,2) m(3) m(2)] m(1)
  show ?thesis by (simp add: assign_etymologies_def AList.update_triv)
qed

section \<open>The loop over the epithets\<close>

lemma etymologies_of_document [simp]: "etymologies_of (document root etymologies) = etymologies"
  by (simp add: etymologies_of_def)

lemma persist_cases:
  "persist env doc w = (res, w') \<Longrightarrow>
     requests w' = requests w \<and> epithets_json w' = epithets_json w
     \<and> (\<exists>how. writes w' = writes w @ [(doc, how)]
          \<and> (case how of
                OpenFails \<Rightarrow> res = Inl OSError \<and> etymologies_json w' = etymologies_json w
              | WriteFails \<Rightarrow> (\<exists>err. res = Inl err) \<and> etymologies_json w' = Torn doc
              | WriteOk \<Rightarrow> res = Inr () \<and> etymologies_json w' = Holds doc \<and> encodable doc))"
  by (cases "storage env (length (writes w))") (auto simp: persist_def split: if_splits)

lemma persist_ok:
  "persist env doc w = (Inr u, w') \<Longrightarrow>
     w' = w\<lparr>writes := writes w @ [(doc, WriteOk)], etymologies_json := Holds doc\<rparr>
     \<and> storage env (length (writes w)) = WriteOk \<and> encodable doc"
  by (cases "storage env (length (writes w))") (auto simp: persist_def split: if_splits)

lemma persist_takes:
  "storage env (length (writes w)) = WriteOk \<Longrightarrow> encodable doc \<Longrightarrow>
     persist env doc w
       = (Inr (), w\<lparr>writes := writes w @ [(doc, WriteOk)], etymologies_json := Holds doc\<rparr>)"
  by (simp add: persist_def)

lemma persist_fails:
  "persist env doc w = (Inl err, w') \<Longrightarrow>
     requests w' = requests w \<and> epithets_json w' = epithets_json w
     \<and> (writes w' = writes w @ [(doc, OpenFails)] \<and> etymologies_json w' = etymologies_json w
        \<or> writes w' = writes w @ [(doc, WriteFails)] \<and> etymologies_json w' = Torn doc)"
  by (cases "storage env (length (writes w))") (auto simp: persist_def split: if_splits)

lemma update_loop_append:
  "update_loop env (xs @ ys) root etymologies w =
     (case update_loop env xs root etymologies w of
        (Inl err, w') \<Rightarrow> (Inl err, w')
      | (Inr doc, w') \<Rightarrow> update_loop env ys root (etymologies_of doc) w')"
  by (induction xs arbitrary: etymologies w) (auto split: prod.splits sum.splits)

lemma update_loop_trace:
  assumes run: "update_loop env eps root etymologies w = (res, w')"
      and init: "P seen etymologies"
      and step: "\<forall>epithet ety ety' log log' seen.
                   P seen ety \<longrightarrow> assign_etymologies env epithet ety log = (Inr ety', log')
                   \<longrightarrow> P (seen @ [epithet]) ety'"
  shows "\<exists>news. writes w' = writes w @ news \<and> length news \<le> length eps
           \<and> (\<forall>i<length news. \<exists>ety. fst (news ! i) = document root ety
                    \<and> P (seen @ take (Suc i) eps) ety)
           \<and> (\<forall>doc. res = Inr doc \<longrightarrow>
                 (\<exists>ety. doc = document root ety \<and> P (seen @ eps) ety)
                 \<and> length news = length eps
                 \<and> (\<forall>x \<in> set news. snd x = WriteOk)
                 \<and> (eps \<noteq> [] \<longrightarrow> etymologies_json w' = Holds doc))"
  using run init
proof (induction eps arbitrary: etymologies w seen)
  case Nil
  then show ?case by auto
next
  case (Cons epithet eps)
  show ?case
  proof (cases "assign_etymologies env epithet etymologies (requests w)")
    case (Pair a log)
    show ?thesis
    proof (cases a)
      case (Inl err)
      with Pair Cons.prems(1) show ?thesis by auto
    next
      case (Inr ety')
      from step [rule_format, OF Cons.prems(2)] Pair Inr have P': "P (seen @ [epithet]) ety'" by simp
      let ?doc = "document root ety'"
      let ?w1 = "w\<lparr>requests := log\<rparr>"
      show ?thesis
      proof (cases "persist env ?doc ?w1")
        case p: (Pair b w2)
        from persist_cases [OF p] obtain how where
          wr: "writes w2 = writes w @ [(?doc, how)]" by auto
        show ?thesis
        proof (cases b)
          case (Inl err)
          with Pair Inr p Cons.prems(1) have "w' = w2" "res = Inl err" by auto
          with wr P' show ?thesis
            by (intro exI [of _ "[(?doc, how)]"]) auto
        next
          case ok: (Inr u)
          with persist_ok [of env ?doc ?w1 u w2] p have
            wr2: "writes w2 = writes w @ [(?doc, WriteOk)]"
            and h2: "etymologies_json w2 = Holds ?doc" by auto
          from Pair Inr p ok Cons.prems(1) have
            rest: "update_loop env eps root ety' w2 = (res, w')" by simp
          from Cons.IH [OF rest P'] obtain news where
            n: "writes w' = writes w2 @ news" "length news \<le> length eps"
               "\<forall>i<length news. \<exists>ety. fst (news ! i) = document root ety
                    \<and> P ((seen @ [epithet]) @ take (Suc i) eps) ety"
               "\<forall>doc. res = Inr doc \<longrightarrow>
                 (\<exists>ety. doc = document root ety \<and> P ((seen @ [epithet]) @ eps) ety)
                 \<and> length news = length eps
                 \<and> (\<forall>x \<in> set news. snd x = WriteOk)
                 \<and> (eps \<noteq> [] \<longrightarrow> etymologies_json w' = Holds doc)"
            by blast
          let ?news = "(?doc, WriteOk) # news"
          have 1: "writes w' = writes w @ ?news" using n(1) wr2 by simp
          have 2: "length ?news \<le> length (epithet # eps)" using n(2) by simp
          have 3: "\<forall>i<length ?news. \<exists>ety. fst (?news ! i) = document root ety
                    \<and> P (seen @ take (Suc i) (epithet # eps)) ety"
          proof (intro allI impI)
            fix i assume i: "i < length ?news"
            show "\<exists>ety. fst (?news ! i) = document root ety
                    \<and> P (seen @ take (Suc i) (epithet # eps)) ety"
            proof (cases i)
              case 0
              with P' show ?thesis by auto
            next
              case (Suc j)
              with i n(3) show ?thesis by auto
            qed
          qed
          have 4: "\<forall>doc. res = Inr doc \<longrightarrow>
                 (\<exists>ety. doc = document root ety \<and> P (seen @ epithet # eps) ety)
                 \<and> length ?news = length (epithet # eps)
                 \<and> (\<forall>x \<in> set ?news. snd x = WriteOk)
                 \<and> (epithet # eps \<noteq> [] \<longrightarrow> etymologies_json w' = Holds doc)"
          proof (intro allI impI)
            fix doc assume d: "res = Inr doc"
            with n(4) have a: "\<exists>ety. doc = document root ety \<and> P (seen @ epithet # eps) ety"
              "length news = length eps" "\<forall>x \<in> set news. snd x = WriteOk"
              "eps \<noteq> [] \<longrightarrow> etymologies_json w' = Holds doc" by auto
            have "etymologies_json w' = Holds doc"
            proof (cases eps)
              case Nil
              with rest d h2 show ?thesis by simp
            next
              case (Cons x xs)
              with a(4) show ?thesis by simp
            qed
            with a show "(\<exists>ety. doc = document root ety \<and> P (seen @ epithet # eps) ety)
                 \<and> length ?news = length (epithet # eps)
                 \<and> (\<forall>x \<in> set ?news. snd x = WriteOk)
                 \<and> (epithet # eps \<noteq> [] \<longrightarrow> etymologies_json w' = Holds doc)" by simp
          qed
          from 1 2 3 4 show ?thesis by blast
        qed
      qed
    qed
  qed
qed

lemma update_loop_frame:
  "update_loop env eps root etymologies w = (res, w') \<Longrightarrow>
     epithets_json w' = epithets_json w \<and> (\<exists>rest. requests w' = requests w @ rest)"
proof (induction eps arbitrary: etymologies w)
  case Nil
  then show ?case by auto
next
  case (Cons epithet eps)
  obtain a log where al: "assign_etymologies env epithet etymologies (requests w) = (a, log)"
    by (cases "assign_etymologies env epithet etymologies (requests w)")
  with assign_etymologies_log [of env epithet etymologies "requests w"]
  obtain r1 where r1: "log = requests w @ r1" by auto
  show ?case
  proof (cases a)
    case (Inl err)
    with al Cons.prems r1 show ?thesis by auto
  next
    case (Inr ety')
    obtain b w2 where p: "persist env (document root ety') (w\<lparr>requests := log\<rparr>) = (b, w2)"
      by (cases "persist env (document root ety') (w\<lparr>requests := log\<rparr>)")
    from persist_cases [OF p] have
      w2: "requests w2 = log" "epithets_json w2 = epithets_json w" by auto
    show ?thesis
    proof (cases b)
      case (Inl err)
      with al Inr p Cons.prems w2 r1 show ?thesis by auto
    next
      case ok: (Inr u)
      with al Inr p Cons.prems have "update_loop env eps root ety' w2 = (res, w')" by simp
      from Cons.IH [OF this] w2 r1 show ?thesis by auto
    qed
  qed
qed

section \<open>Invariants of the loop\<close>

lemma set_alist_update: "set (AList.update k v al) \<subseteq> insert (k, v) (set al)"
proof (induction al)
  case Nil
  then show ?case by simp
next
  case (Cons p al)
  then show ?case by (cases p) auto
qed

lemma unique_word_keys_update:
  "unique_word_keys (JObj store) \<Longrightarrow> distinct (map fst m) \<Longrightarrow>
     unique_word_keys (JObj (AList.update e (JObj m) store))"
proof -
  assume u: "unique_word_keys (JObj store)" and d: "distinct (map fst m)"
  have "case snd kv of JObj m \<Rightarrow> distinct (map fst m) | _ \<Rightarrow> True"
    if "kv \<in> set (AList.update e (JObj m) store)" for kv
  proof (cases "kv = (e, JObj m)")
    case True
    with d show ?thesis by simp
  next
    case False
    with that set_alist_update [of e "JObj m" store] have "kv \<in> set store" by auto
    with u show ?thesis by (simp add: unique_word_keys_def list_all_iff)
  qed
  then show ?thesis by (simp add: unique_word_keys_def list_all_iff)
qed

lemma unique_word_keys_lookup:
  "unique_word_keys (JObj store) \<Longrightarrow>
     (case map_of store e of None \<Rightarrow> JObj [] | Some v \<Rightarrow> v) = JObj m \<Longrightarrow> distinct (map fst m)"
proof (cases "map_of store e")
  case None
  assume "(case map_of store e of None \<Rightarrow> JObj [] | Some v \<Rightarrow> v) = JObj m"
  with None show ?thesis by simp
next
  case (Some v)
  assume u: "unique_word_keys (JObj store)"
    and "(case map_of store e of None \<Rightarrow> JObj [] | Some v \<Rightarrow> v) = JObj m"
  with Some have "(e, JObj m) \<in> set store" by (simp add: map_of_SomeD)
  with u have "case snd (e, JObj m) of JObj m \<Rightarrow> distinct (map fst m) | _ \<Rightarrow> True"
    unfolding unique_word_keys_def json.case list_all_iff by (rule bspec)
  then show ?thesis by simp
qed

lemma submap_update:
  "submap (document root (JObj (AList.update e v store))) x =
     (if x = e then (case v of JObj m \<Rightarrow> Some m | _ \<Rightarrow> None)
      else submap (document root (JObj store)) x)"
  by (simp add: submap_document AList.update_conv' split: json.splits)

lemma settled_env:
  assumes "arranges env1" "arranges env2" "lower env2 = lower env1" "finn_split env2 = finn_split env1"
  shows "settled env2 doc e = settled env1 doc e"
proof -
  have c: "clean_epithet env2 e = clean_epithet env1 e"
    using assms(3) by (simp add: clean_epithet_def)
  have "compound_words env2 = compound_words env1"
    using assms(4) by (simp add: compound_words_def fun_eq_iff)
  then have "set (to_words env2 (clean_epithet env2 e)) = set (to_words env1 (clean_epithet env1 e))"
    by (simp add: set_to_words [OF assms(1)] set_to_words [OF assms(2)] c)
  then show ?thesis by (simp add: settled_def split: option.splits)
qed

lemma settled_update_same:
  "sorted (map fst m') \<Longrightarrow> set (to_words env (clean_epithet env e)) \<subseteq> set (map fst m') \<Longrightarrow>
     settled env (document root (JObj (AList.update e (JObj m') store))) e"
  by (simp add: settled_def submap_update)

lemma settled_update_other:
  "x \<noteq> e \<Longrightarrow> settled env (document root (JObj (AList.update e v store))) x
     = settled env (document root (JObj store)) x"
  by (simp add: settled_def submap_update)

lemma strictly_sorted_update_same:
  "sorted (map fst m') \<Longrightarrow> distinct (map fst m') \<Longrightarrow>
     strictly_sorted (document root (JObj (AList.update e (JObj m') store))) e"
  by (simp add: strictly_sorted_def submap_update strict_sorted_iff)

lemma strictly_sorted_update_other:
  "x \<noteq> e \<Longrightarrow> strictly_sorted (document root (JObj (AList.update e v store))) x
     = strictly_sorted (document root (JObj store)) x"
  by (simp add: strictly_sorted_def submap_update)

lemma all_settled_step:
  assumes "arranges env" "all_settled env root seen ety"
      and "assign_etymologies env epithet ety log = (Inr ety', log')"
  shows "all_settled env root (seen @ [epithet]) ety'"
proof -
  from assign_etymologies_result [OF assms(3,1)] obtain e store m m' where
    full: "epithet = JStr e \<and> ety = JObj store
          \<and> (case map_of store e of None \<Rightarrow> JObj [] | Some v \<Rightarrow> v) = JObj m
          \<and> ety' = JObj (AList.update e (JObj m') store)
          \<and> sorted (map fst m')
          \<and> set (map fst m') = set (map fst m) \<union> set (to_words env (clean_epithet env e))
          \<and> (distinct (map fst m) \<longrightarrow> distinct (map fst m'))
          \<and> (\<forall>k. k \<notin> set (to_words env (clean_epithet env e)) \<longrightarrow> map_of m' k = map_of m k)"
    by (elim exE) (rule that)
  from full have
    r: "epithet = JStr e" "ety = JObj store" "ety' = JObj (AList.update e (JObj m') store)"
    and s: "sorted (map fst m')"
    and k: "set (map fst m') = set (map fst m) \<union> set (to_words env (clean_epithet env e))"
    by simp_all
  from k have "set (to_words env (clean_epithet env e)) \<subseteq> set (map fst m')" by blast
  from settled_update_same [OF s this] r(3)
  have new: "settled env (document root ety') e" by simp
  have old: "settled env (document root ety') x" if "settled env (document root ety) x" for x
  proof (cases "x = e")
    case True
    with new show ?thesis by simp
  next
    case False
    from settled_update_other [OF False] that r(2,3) show ?thesis by simp
  qed
  show ?thesis
    unfolding all_settled_def
  proof
    fix x assume "x \<in> set (seen @ [epithet])"
    then consider "x \<in> set seen" | "x = epithet" by auto
    then show "\<exists>e. x = JStr e \<and> settled env (document root ety') e"
    proof cases
      case 1
      with assms(2) obtain e0 where "x = JStr e0" "settled env (document root ety) e0"
        unfolding all_settled_def by blast
      with old show ?thesis by blast
    next
      case 2
      with new r(1) show ?thesis by blast
    qed
  qed
qed

lemma all_strict_step:
  assumes "arranges env" "all_strict root seen ety"
      and "assign_etymologies env epithet ety log = (Inr ety', log')"
  shows "all_strict root (seen @ [epithet]) ety'"
proof -
  from assign_etymologies_result [OF assms(3,1)] obtain e store m m' where
    full: "epithet = JStr e \<and> ety = JObj store
          \<and> (case map_of store e of None \<Rightarrow> JObj [] | Some v \<Rightarrow> v) = JObj m
          \<and> ety' = JObj (AList.update e (JObj m') store)
          \<and> sorted (map fst m')
          \<and> set (map fst m') = set (map fst m) \<union> set (to_words env (clean_epithet env e))
          \<and> (distinct (map fst m) \<longrightarrow> distinct (map fst m'))
          \<and> (\<forall>k. k \<notin> set (to_words env (clean_epithet env e)) \<longrightarrow> map_of m' k = map_of m k)"
    by (elim exE) (rule that)
  from full have
    r: "epithet = JStr e" "ety = JObj store" "ety' = JObj (AList.update e (JObj m') store)"
    and l: "(case map_of store e of None \<Rightarrow> JObj [] | Some v \<Rightarrow> v) = JObj m"
    and s: "sorted (map fst m')" and dd: "distinct (map fst m) \<longrightarrow> distinct (map fst m')"
    by simp_all
  from assms(2) r(2) have u: "unique_word_keys (JObj store)" by (simp add: all_strict_def)
  from unique_word_keys_lookup [OF u l] dd have d: "distinct (map fst m')" by simp
  have u': "unique_word_keys ety'"
    unfolding r(3) by (rule unique_word_keys_update [OF u d])
  from strictly_sorted_update_same [OF s d] r(3)
  have new: "strictly_sorted (document root ety') e" by simp
  have old: "strictly_sorted (document root ety') x" if "strictly_sorted (document root ety) x" for x
  proof (cases "x = e")
    case True
    with new show ?thesis by simp
  next
    case False
    from strictly_sorted_update_other [OF False] that r(2,3) show ?thesis by simp
  qed
  have "strictly_sorted (document root ety') x" if "JStr x \<in> set (seen @ [epithet])" for x
  proof (cases "JStr x \<in> set seen")
    case True
    with assms(2) old show ?thesis unfolding all_strict_def by blast
  next
    case False
    with that r(1) have "x = e" by simp
    with new show ?thesis by simp
  qed
  with u' show ?thesis unfolding all_strict_def by blast
qed

lemma update_etymologies_cases:
  assumes "update_etymologies env etymologies_root epithets_root w = (res, w')"
  shows "(w' = w \<and> (\<exists>err. res = Inl err))
       \<or> (\<exists>root. etymologies_root = JObj root
             \<and> update_loop env (epithets_of epithets_root) root (etymologies_of etymologies_root) w
                 = (res, w'))"
proof (cases etymologies_root)
  case (JObj root)
  have e: "etymologies_of (JObj root) = (case map_of root etymologies_key of None \<Rightarrow> JObj [] | Some v \<Rightarrow> v)"
    by (simp add: etymologies_of_def split: option.splits)
  show ?thesis
  proof (cases "getitem epithets_root (ascii ''epithets'')")
    case (Inl err)
    with assms JObj have "res = Inl err \<and> w' = w" by (auto simp: update_etymologies_def)
    then show ?thesis by blast
  next
    case (Inr epithets)
    show ?thesis
    proof (cases "py_iter epithets")
      case (Inl err)
      with assms JObj Inr have "res = Inl err \<and> w' = w" by (auto simp: update_etymologies_def)
      then show ?thesis by blast
    next
      case es: (Inr es)
      with Inr have "epithets_of epithets_root = es" by (simp add: epithets_of_def)
      with assms JObj Inr es e show ?thesis by (auto simp: update_etymologies_def)
    qed
  qed
qed (use assms in \<open>auto simp: update_etymologies_def\<close>)

lemma main_cases:
  assumes "main env w = (res, w')"
  shows "(w' = w \<and> (\<exists>err. res = Inl err))
       \<or> (\<exists>epithets_root. epithets_json w = Holds epithets_root
             \<and> update_etymologies env (loaded w) epithets_root w = (res, w'))"
  using assms
  by (cases "epithets_json w"; cases "etymologies_json w") (auto simp: main_def loaded_def)

lemma filter_alist_update:
  "filter (\<lambda>kv. fst kv \<noteq> k) (AList.update k v al) = filter (\<lambda>kv. fst kv \<noteq> k) al"
proof (induction al)
  case Nil
  then show ?case by simp
next
  case (Cons p al)
  then show ?case by (cases p) simp
qed

lemma other_keys_document: "other_keys (document root etymologies) = other_keys (JObj root)"
  by (simp add: other_keys_def document_def filter_alist_update)

section \<open>The scenario\<close>

lemma mset_two: "mset xs = mset [a, b] \<Longrightarrow> xs = [a, b] \<or> xs = [b, a]"
proof -
  assume h: "mset xs = mset [a, b]"
  then have "length xs = 2" by (metis length_Cons list.size(3) numeral_2_eq_2 size_mset)
  then obtain x y where xy: "xs = [x, y]"
    by (metis (no_types, opaque_lifting) Suc_length_conv length_0_conv numeral_2_eq_2)
  with h show ?thesis
    by (auto simp: add_eq_conv_ex)
qed

lemma to_words_loop_unsplit:
  "\<forall>t \<in> set visit. length (compound_words env t) \<le> 1 \<Longrightarrow> to_words_loop env visit segments = segments"
  by (induction visit arbitrary: segments) auto

lemma search_found:
  assumes "http_get env log (QsAjaxResults word) = Inr r1" "records r1 = Inr es1" "any_value es1 word = Inr True"
      and "http_get env (log @ [QsAjaxResults word]) (QsResults word) = Inr r2"
      and "\<not> (400 \<le> status_code r2 \<and> status_code r2 < 600)"
      and "records r2 = Inr es2" "next_hakusana es2 word = Inr (Some record)"
      and "getitem record (ascii ''selite'') = Inr selite"
      and "getitem record (ascii ''etym_id'') = Inr etym_id"
  shows "search env word log =
          (Inr (Some \<lparr>etymology_definition = selite, etymology_url = etym_link (format_value env etym_id)\<rparr>),
           log @ [QsAjaxResults word, QsResults word])"
  using assms by (simp add: search_def word_exists_def Let_def)

lemma search_missing:
  assumes "http_get env log (QsAjaxResults word) = Inr r1" "records r1 = Inr es1" "any_value es1 word = Inr False"
  shows "search env word log = (Inr None, log @ [QsAjaxResults word])"
  using assms by (simp add: search_def word_exists_def Let_def)

lemma scenario_words:
  assumes lower: "lower env (ascii ''vanha akka'') = ascii ''vanha akka''"
      and split: "61 \<notin> set (finn_split env (ascii ''vanha''))" "61 \<notin> set (finn_split env (ascii ''akka''))"
      and order: "arranges env"
  shows "to_words env (clean_epithet env (ascii ''vanha akka'')) = [ascii ''vanha'', ascii ''akka'']"
proof -
  have c: "clean_epithet env (ascii ''vanha akka'') = ascii ''vanha akka''"
    by (simp add: clean_epithet_def lower) (simp add: ascii_def permitted_def)
  have s: "remdups (str_split 32 (ascii ''vanha akka'')) = [ascii ''vanha'', ascii ''akka'']"
    by (simp add: ascii_def)
  have "\<forall>t \<in> set (set_order env [ascii ''vanha'', ascii ''akka'']). length (compound_words env t) \<le> 1"
    using split by (auto simp: arranges_set [OF order] compound_words_def str_split_no_sep)
  from to_words_loop_unsplit [OF this] show ?thesis
    unfolding to_words_def c s Let_def by simp
qed

lemma vanha_akka_order: "ascii ''vanha'' \<noteq> ascii ''akka''" "ascii ''akka'' \<noteq> ascii ''vanha''" "ascii ''akka'' < ascii ''vanha''"
  by (simp_all add: ascii_def)

lemma scenario_submap:
  assumes lower: "lower env (ascii ''vanha akka'') = ascii ''vanha akka''"
      and split: "61 \<notin> set (finn_split env (ascii ''vanha''))" "61 \<notin> set (finn_split env (ascii ''akka''))"
      and order: "arranges env"
      and vanha: "\<forall>log. search env (ascii ''vanha'') log =
                   (Inr (Some \<lparr>etymology_definition = JStr (ascii ''old''),
                                etymology_url = ascii ''https://kaino.kotus.fi/ses/?p=article&etym_id=5''\<rparr>),
                    log @ [QsAjaxResults (ascii ''vanha''), QsResults (ascii ''vanha'')])"
      and akka: "\<forall>log. search env (ascii ''akka'') log = (Inr None, log @ [QsAjaxResults (ascii ''akka'')])"
  shows "\<exists>log'. search_etymologies env (ascii ''vanha akka'') (JObj []) log =
           (Inr (JObj [(ascii ''akka'', JNull),
                  (ascii ''vanha'',
                   JObj [(ascii ''definition'', JStr (ascii ''old'')),
                         (ascii ''url'', JStr (ascii ''https://kaino.kotus.fi/ses/?p=article&etym_id=5''))])]), log')"
proof -
  let ?v = "ascii ''vanha''" and ?a = "ascii ''akka''"
  have w: "to_words env (clean_epithet env (ascii ''vanha akka'')) = [?v, ?a]"
    by (rule scenario_words [OF lower split order])
  from order have "mset (set_order env [?v, ?a]) = mset [?v, ?a]"
    unfolding arranges_def by (rule spec)
  from mset_two [OF this] show ?thesis
  proof
    assume 1: "set_order env [?v, ?a] = [?v, ?a]"
    have "search_words env [?v, ?a] (JObj []) log = 
       (Inr (JObj [(?v,
                   JObj [(ascii ''definition'', JStr (ascii ''old'')),
                         (ascii ''url'', JStr (ascii ''https://kaino.kotus.fi/ses/?p=article&etym_id=5''))]), (?a, JNull)]), log @ [QsAjaxResults ?v, QsResults ?v, QsAjaxResults ?a])"
      using vanha_akka_order by (simp add: vanha akka entry_def)
    then show ?thesis
      unfolding search_etymologies_def Let_def w 1
      using vanha_akka_order by simp
  next
    assume 2: "set_order env [?v, ?a] = [?a, ?v]"
    have "search_words env [?a, ?v] (JObj []) log = 
       (Inr (JObj [(?a, JNull), (?v,
                   JObj [(ascii ''definition'', JStr (ascii ''old'')),
                         (ascii ''url'', JStr (ascii ''https://kaino.kotus.fi/ses/?p=article&etym_id=5''))])]), log @ [QsAjaxResults ?a, QsAjaxResults ?v, QsResults ?v])"
      using vanha_akka_order by (simp add: vanha akka entry_def)
    then show ?thesis
      unfolding search_etymologies_def Let_def w 2
      using vanha_akka_order by simp
  qed
qed

lemma url5: "etym_link (str_int 5) = ascii ''https://kaino.kotus.fi/ses/?p=article&etym_id=5''"
  by (simp add: etym_link_def ascii_def str_int_def)

lemma url5': "etym_link (ascii ''5'') = ascii ''https://kaino.kotus.fi/ses/?p=article&etym_id=5''"
  by (simp add: etym_link_def ascii_def)

text \<open>
  C1. With the input document \<open>{"epithets": ["vanha akka"]}\<close>, no earlier etymologies
  (no output file, or one holding \<open>{}\<close> or \<open>{"etymologies": {}}\<close>), a lexicon that lists
  \<open>vanha\<close> with the definition \<open>old\<close> and the id 5 (as a number or as a string) and does
  not list \<open>akka\<close>, and a splitter that divides neither word, the program ends with the
  document \<open>{"etymologies": {"vanha akka": {"akka": null, "vanha": {"definition": "old",
  "url": "https://kaino.kotus.fi/ses/?p=article&etym_id=5"}}}}\<close> in memory and in the
  output file, whatever the order in which the set of words is iterated.
\<close>

theorem vanha_akka_scenario:
  assumes lower: "lower env (ascii ''vanha akka'') = ascii ''vanha akka''"
      and split: "61 \<notin> set (finn_split env (ascii ''vanha''))"
                 "61 \<notin> set (finn_split env (ascii ''akka''))"
      and order: "arranges env"
      and vanha_exists:
        "\<forall>log. \<exists>r es. http_get env log (QsAjaxResults (ascii ''vanha'')) = Inr r
            \<and> records r = Inr es \<and> any_value es (ascii ''vanha'') = Inr True"
      and vanha_article:
        "\<forall>log. \<exists>r es rec etym_id. http_get env log (QsResults (ascii ''vanha'')) = Inr r
            \<and> \<not> (400 \<le> status_code r \<and> status_code r < 600)
            \<and> records r = Inr es \<and> next_hakusana es (ascii ''vanha'') = Inr (Some rec)
            \<and> getitem rec (ascii ''selite'') = Inr (JStr (ascii ''old''))
            \<and> getitem rec (ascii ''etym_id'') = Inr etym_id
            \<and> (etym_id = JInt 5 \<or> etym_id = JStr (ascii ''5''))"
      and akka_missing:
        "\<forall>log. \<exists>r es. http_get env log (QsAjaxResults (ascii ''akka'')) = Inr r
            \<and> records r = Inr es \<and> any_value es (ascii ''akka'') = Inr False"
      and disk: "storage env (length (writes w)) = WriteOk"
      and input: "epithets_json w = Holds scenario_input"
      and prior: "etymologies_json w = Missing \<or> etymologies_json w = Holds (JObj [])
                  \<or> etymologies_json w = Holds (JObj [(ascii ''etymologies'', JObj [])])"
  shows "fst (main env w) = Inr scenario_doc
       \<and> etymologies_json (snd (main env w)) = Holds scenario_doc"
proof -
  let ?v = "ascii ''vanha''" and ?a = "ascii ''akka''"
  let ?url = "ascii ''https://kaino.kotus.fi/ses/?p=article&etym_id=5''"
  have vanha: "\<forall>log. search env ?v log =
                   (Inr (Some \<lparr>etymology_definition = JStr (ascii ''old''), etymology_url = ?url\<rparr>),
                    log @ [QsAjaxResults ?v, QsResults ?v])"
  proof
    fix log
    from vanha_exists obtain r1 es1 where
      1: "http_get env log (QsAjaxResults ?v) = Inr r1" "records r1 = Inr es1"
         "any_value es1 ?v = Inr True" by blast
    from vanha_article obtain r2 es2 rec etym_id where
      2: "http_get env (log @ [QsAjaxResults ?v]) (QsResults ?v) = Inr r2"
         "\<not> (400 \<le> status_code r2 \<and> status_code r2 < 600)"
         "records r2 = Inr es2" "next_hakusana es2 ?v = Inr (Some rec)"
         "getitem rec (ascii ''selite'') = Inr (JStr (ascii ''old''))"
         "getitem rec (ascii ''etym_id'') = Inr etym_id"
      and 3: "etym_id = JInt 5 \<or> etym_id = JStr (ascii ''5'')" by blast
    from 3 have "etym_link (format_value env etym_id) = ?url"
      by (auto simp: url5 url5')
    with search_found [OF 1 2] show "search env ?v log =
                   (Inr (Some \<lparr>etymology_definition = JStr (ascii ''old''), etymology_url = ?url\<rparr>),
                    log @ [QsAjaxResults ?v, QsResults ?v])" by simp
  qed
  have akka: "\<forall>log. search env ?a log = (Inr None, log @ [QsAjaxResults ?a])"
  proof
    fix log
    from akka_missing obtain r1 es1 where
      1: "http_get env log (QsAjaxResults ?a) = Inr r1" "records r1 = Inr es1"
         "any_value es1 ?a = Inr False" by blast
    from search_missing [OF 1] show "search env ?a log = (Inr None, log @ [QsAjaxResults ?a])" .
  qed
  from scenario_submap [OF lower split order vanha akka, of "requests w"] obtain log' where
    s: "search_etymologies env (ascii ''vanha akka'') (JObj []) (requests w) =
           (Inr (JObj [(?a, JNull),
                  (?v, JObj [(ascii ''definition'', JStr (ascii ''old'')),
                             (ascii ''url'', JStr ?url)])]), log')" by blast
  have a: "assign_etymologies env (JStr (ascii ''vanha akka'')) (JObj []) (requests w) = (Inr scenario_store, log')"
    by (simp add: assign_etymologies_def s scenario_store_def)
  have k: "etymologies_key = ascii ''etymologies''" by (simp add: etymologies_key_def)
  have d: "document [] scenario_store = scenario_doc"
          "document [(ascii ''etymologies'', JObj [])] scenario_store = scenario_doc"
    by (simp_all add: document_def scenario_doc_def k)
  have enc: "encodable scenario_doc"
    by (simp add: scenario_doc_def scenario_store_def utf8_encodable_def surrogate_def ascii_def)
  have l: "fst (update_loop env [JStr (ascii ''vanha akka'')] [] (JObj []) w) = Inr scenario_doc
           \<and> etymologies_json (snd (update_loop env [JStr (ascii ''vanha akka'')] [] (JObj []) w)) = Holds scenario_doc"
       "fst (update_loop env [JStr (ascii ''vanha akka'')] [(ascii ''etymologies'', JObj [])] (JObj []) w) = Inr scenario_doc
           \<and> etymologies_json (snd (update_loop env [JStr (ascii ''vanha akka'')] [(ascii ''etymologies'', JObj [])] (JObj []) w)) = Holds scenario_doc"
    by (simp_all add: a d persist_takes disk enc)
  have u: "update_etymologies env (JObj []) scenario_input w = update_loop env [JStr (ascii ''vanha akka'')] [] (JObj []) w"
       "update_etymologies env (JObj [(ascii ''etymologies'', JObj [])]) scenario_input w
          = update_loop env [JStr (ascii ''vanha akka'')] [(ascii ''etymologies'', JObj [])] (JObj []) w"
    by (simp_all add: update_etymologies_def scenario_input_def k)
  from prior show ?thesis
    by (auto simp: main_def input u l simp del: update_loop.simps)
qed

theorem vanha_akka_scenario_witness:
  "fst (main demo_env scenario_world) = Inr scenario_doc
   \<and> etymologies_json (snd (main demo_env scenario_world)) = Holds scenario_doc"
proof (rule vanha_akka_scenario)
  show "lower demo_env (ascii ''vanha akka'') = ascii ''vanha akka''"
    by (simp add: demo_fields ascii_lower_def ascii_def)
  show "61 \<notin> set (finn_split demo_env (ascii ''vanha''))"
    by (simp add: demo_fields fake_split_def ascii_def)
  show "61 \<notin> set (finn_split demo_env (ascii ''akka''))"
    by (simp add: demo_fields fake_split_def ascii_def)
  show "arranges demo_env"
    by (simp add: demo_env_def arranges_fake_env)
  show "\<forall>log. \<exists>r es. http_get demo_env log (QsAjaxResults (ascii ''vanha'')) = Inr r
            \<and> records r = Inr es \<and> any_value es (ascii ''vanha'') = Inr True"
    by (simp add: demo_fields answer_def records_def ascii_def)
  show "\<forall>log. \<exists>r es rec etym_id. http_get demo_env log (QsResults (ascii ''vanha'')) = Inr r
            \<and> \<not> (400 \<le> status_code r \<and> status_code r < 600)
            \<and> records r = Inr es \<and> next_hakusana es (ascii ''vanha'') = Inr (Some rec)
            \<and> getitem rec (ascii ''selite'') = Inr (JStr (ascii ''old''))
            \<and> getitem rec (ascii ''etym_id'') = Inr etym_id
            \<and> (etym_id = JInt 5 \<or> etym_id = JStr (ascii ''5''))"
    by (simp add: demo_fields answer_def records_def ascii_def)
  show "\<forall>log. \<exists>r es. http_get demo_env log (QsAjaxResults (ascii ''akka'')) = Inr r
            \<and> records r = Inr es \<and> any_value es (ascii ''akka'') = Inr False"
    by (simp add: demo_fields answer_def records_def ascii_def)
  show "storage demo_env (length (writes scenario_world)) = WriteOk"
    by (simp add: demo_fields)
  show "epithets_json scenario_world = Holds scenario_input"
    by (simp add: scenario_world_def)
  show "etymologies_json scenario_world = Missing \<or> etymologies_json scenario_world = Holds (JObj [])
                  \<or> etymologies_json scenario_world = Holds (JObj [(ascii ''etymologies'', JObj [])])"
    by (simp add: scenario_world_def)
qed
section \<open>The stand-in at work\<close>

lemma demo_words:
  "to_words demo_env (clean_epithet demo_env demo_epithet) =
     [ascii ''vanhapiika'', ascii ''akka'', ascii ''vanha'', ascii ''piika'']"
  unfolding demo_epithet_def demo_clean
  by (simp add: to_words_def demo_fields compound_words_def fake_split_def set_update_def ascii_def)

lemma demo_search_etymologies:
  "search_etymologies demo_env demo_epithet (JObj []) [] = (Inr demo_submap, demo_requests)"
  unfolding search_etymologies_def Let_def demo_words
  by (simp add: demo_fields search_def word_exists_def answer_def records_def entry_def
      etym_link_def str_int_def demo_submap_def demo_requests_def ascii_def)

lemma next_hakusana_none:
  "\<forall>e \<in> set es. \<exists>v. getitem e (ascii ''hakusana'') = Inr v \<and> v \<noteq> JStr word \<Longrightarrow>
     next_hakusana es word = Inr None"
  by (induction es) auto

text \<open>
  C6. When the quick search lists the word, the articles request succeeds, and every
  candidate it returns has a \<open>hakusana\<close> other than the word, \<open>search\<close> returns \<open>None\<close>
  rather than raising; the loop then stores \<open>None\<close> for the word and goes on with the
  words that remain.
\<close>

theorem anomaly_is_absent:
  assumes "word_exists env word log = (Inr True, log1)"
      and "http_get env log1 (QsResults word) = Inr r"
      and "\<not> (400 \<le> status_code r \<and> status_code r < 600)"
      and "records r = Inr es"
      and "\<forall>e \<in> set es. \<exists>v. getitem e (ascii ''hakusana'') = Inr v \<and> v \<noteq> JStr word"
      and "overwrite_existing env \<or> word \<notin> set (map fst m)"
  shows "search env word log = (Inr None, log1 @ [QsResults word])
       \<and> search_words env (word # words) (JObj m) log =
           search_words env words (JObj (AList.update word JNull m)) (log1 @ [QsResults word])"
proof -
  have s: "search env word log = (Inr None, log1 @ [QsResults word])"
    using assms(1-4) next_hakusana_none [OF assms(5)]
    by (simp add: search_def Let_def)
  with assms(6) show ?thesis
    by (auto simp: entry_def)
qed

theorem anomaly_is_absent_witness:
  "search demo_env (ascii ''piika'') [] =
     (Inr None, [QsAjaxResults (ascii ''piika''), QsResults (ascii ''piika'')])
   \<and> search_words demo_env [ascii ''piika'', ascii ''akka''] (JObj []) [] =
       (Inr (JObj [(ascii ''piika'', JNull), (ascii ''akka'', JNull)]),
        [QsAjaxResults (ascii ''piika''), QsResults (ascii ''piika''), QsAjaxResults (ascii ''akka'')])"
proof -
  have 1: "word_exists demo_env (ascii ''piika'') [] = (Inr True, [QsAjaxResults (ascii ''piika'')])"
    by (simp add: word_exists_def demo_fields answer_def records_def ascii_def)
  have 2: "http_get demo_env [QsAjaxResults (ascii ''piika'')] (QsResults (ascii ''piika'')) =
             answer [JObj [(ascii ''hakusana'', JStr (ascii ''piikainen'')),
                           (ascii ''selite'', JStr (ascii ''prickly'')),
                           (ascii ''etym_id'', JInt 7)]]"
    by (simp add: demo_fields ascii_def)
  have 3: "\<not> (400 \<le> status_code \<lparr>status_code = 200, body = Some (JObj [(ascii ''record'',
              JArr [JObj [(ascii ''hakusana'', JStr (ascii ''piikainen'')),
                           (ascii ''selite'', JStr (ascii ''prickly'')),
                           (ascii ''etym_id'', JInt 7)]])])\<rparr>
            \<and> status_code \<lparr>status_code = 200, body = Some (JObj [(ascii ''record'',
              JArr [JObj [(ascii ''hakusana'', JStr (ascii ''piikainen'')),
                           (ascii ''selite'', JStr (ascii ''prickly'')),
                           (ascii ''etym_id'', JInt 7)]])])\<rparr> < 600)"
    by simp
  have 4: "records \<lparr>status_code = 200, body = Some (JObj [(ascii ''record'',
              JArr [JObj [(ascii ''hakusana'', JStr (ascii ''piikainen'')),
                           (ascii ''selite'', JStr (ascii ''prickly'')),
                           (ascii ''etym_id'', JInt 7)]])])\<rparr>
            = Inr [JObj [(ascii ''hakusana'', JStr (ascii ''piikainen'')),
                           (ascii ''selite'', JStr (ascii ''prickly'')),
                           (ascii ''etym_id'', JInt 7)]]"
    by (simp add: records_def)
  have 5: "\<forall>e \<in> set [JObj [(ascii ''hakusana'', JStr (ascii ''piikainen'')),
                           (ascii ''selite'', JStr (ascii ''prickly'')),
                           (ascii ''etym_id'', JInt 7)]].
             \<exists>v. getitem e (ascii ''hakusana'') = Inr v \<and> v \<noteq> JStr (ascii ''piika'')"
    by (simp add: ascii_def)
  have 6: "overwrite_existing demo_env \<or> ascii ''piika'' \<notin> set (map fst [])"
    by simp
  have 7: "search_words demo_env [ascii ''akka''] (JObj (AList.update (ascii ''piika'') JNull []))
             ([QsAjaxResults (ascii ''piika'')] @ [QsResults (ascii ''piika'')]) =
       (Inr (JObj [(ascii ''piika'', JNull), (ascii ''akka'', JNull)]),
        [QsAjaxResults (ascii ''piika''), QsResults (ascii ''piika''), QsAjaxResults (ascii ''akka'')])"
    by (simp add: demo_fields search_def word_exists_def answer_def records_def entry_def ascii_def)
  from anomaly_is_absent [OF 1 2 [unfolded answer_def] 3 4 5 6, of "[ascii ''akka'']"] 7
  show ?thesis by (simp del: search_words.simps)
qed


text \<open>
  C7. A word of the epithet that had to be looked up and that the lexicon reports as
  having no entry is a key of the dict returned for the epithet, and its value there is
  \<open>None\<close>.
\<close>

theorem absent_word_is_recorded:
  assumes "search_etymologies env epithet (JObj m) log = (Inr found, log')"
      and "arranges env"
      and "word \<in> set (to_words env (clean_epithet env epithet))"
      and "overwrite_existing env \<or> word \<notin> set (map fst m)"
      and "\<forall>h. fst (search env word h) = Inr None"
  shows "py_contains found word = Inr True \<and> getitem found word = Inr JNull"
proof -
  let ?ws = "set_order env (to_words env (clean_epithet env epithet))"
  from assms(1) obtain found1 where
    f: "search_words env ?ws (JObj m) log = (Inr found1, log')" and s: "sorted_items found1 = Inr found"
    by (auto simp: search_etymologies_def Let_def split: prod.splits sum.splits)
  from search_words_keys [OF f] obtain m1 where m1: "found1 = JObj m1" by blast
  have "word \<in> set ?ws" "distinct ?ws"
    using assms(2,3) by (simp_all add: arranges_set arranges_distinct distinct_to_words)
  from search_words_absent [OF f [unfolded m1] this assms(4,5)]
  have a: "map_of m1 word = Some JNull" .
  from s m1 have r: "found = JObj (sort_key fst m1)" by simp
  from a have "word \<in> fst ` set m1" by (metis map_of_eq_None_iff option.distinct(1))
  with a r show ?thesis by (simp add: map_of_sort_key)
qed

theorem absent_word_is_recorded_witness:
  "py_contains demo_submap (ascii ''akka'') = Inr True
   \<and> getitem demo_submap (ascii ''akka'') = Inr JNull"
proof (rule absent_word_is_recorded [OF demo_search_etymologies])
  show "arranges demo_env" by (simp add: demo_env_def arranges_fake_env)
  show "ascii ''akka'' \<in> set (to_words demo_env (clean_epithet demo_env demo_epithet))"
    by (simp add: demo_words)
  show "overwrite_existing demo_env \<or> ascii ''akka'' \<notin> set (map fst [])" by simp
  show "\<forall>h. fst (search demo_env (ascii ''akka'') h) = Inr None"
    by (simp add: demo_fields search_def word_exists_def answer_def records_def ascii_def)
qed


text \<open>
  C10. When no character of the lower-cased epithet is permitted, the cleaned epithet
  is the empty string and its only word is the empty string; unless that word is
  already a key of the dict of the epithet (and nothing is overwritten), the first
  request that follows asks the lexicon for the empty string. The splitter is assumed
  to return the empty string as parts that join to the empty string.
\<close>

theorem unpermitted_epithet_empty_word:
  assumes "\<forall>c \<in> set (lower env epithet). \<not> permitted c"
      and "arranges env"
      and "concat (compound_words env []) = []"
      and "overwrite_existing env \<or> [] \<notin> set (map fst m)"
  shows "clean_epithet env epithet = []
       \<and> to_words env (clean_epithet env epithet) = [[]]
       \<and> (\<exists>rest. snd (search_etymologies env epithet (JObj m) log) = log @ QsAjaxResults [] # rest)"
proof -
  have c: "clean_epithet env epithet = []"
    using assms(1) by (simp add: clean_epithet_def)
  have one: "set_order env [[]] = [[]]"
    using assms(2) by (metis arranges_def mset_single_iff_right mset.simps(1,2))
  have "set (compound_words env []) \<subseteq> set [[]]"
    using assms(3) by auto
  then have "set_update [[]] (compound_words env []) = [[]]"
    by (rule set_update_absorb)
  then have w: "to_words env [] = [[]]"
    by (simp add: to_words_def one Let_def)
  obtain res log1 where s: "search env [] log = (res, log1)"
    by (cases "search env [] log")
  with search_log [of env "[]" log] obtain r1 where l1: "log1 = log @ QsAjaxResults [] # r1"
    by auto
  have q: "\<exists>rest. snd (search_words env [[]] (JObj m) log) = log @ QsAjaxResults [] # rest"
  proof (cases res)
    case (Inl err)
    with s l1 assms(4) show ?thesis by auto
  next
    case (Inr etymology)
    with s l1 assms(4) show ?thesis by auto
  qed
  obtain r2 l2 where sw: "search_words env [[]] (JObj m) log = (r2, l2)"
    by (cases "search_words env [[]] (JObj m) log")
  have "snd (search_etymologies env epithet (JObj m) log) = l2"
    unfolding search_etymologies_def Let_def c w one sw
    by (cases r2) simp_all
  with q sw c w show ?thesis by simp
qed

theorem unpermitted_epithet_empty_word_witness:
  "clean_epithet demo_env (ascii ''?!?'') = []
   \<and> to_words demo_env (clean_epithet demo_env (ascii ''?!?'')) = [[]]
   \<and> (\<exists>rest. snd (search_etymologies demo_env (ascii ''?!?'') (JObj []) []) = QsAjaxResults [] # rest)"
proof -
  have 1: "\<forall>c \<in> set (lower demo_env (ascii ''?!?'')). \<not> permitted c"
    by (simp add: demo_fields ascii_lower_def ascii_def permitted_def)
  have 2: "arranges demo_env"
    by (simp add: demo_env_def arranges_fake_env)
  have 3: "concat (compound_words demo_env []) = []"
    by (simp add: compound_words_def demo_fields fake_split_def ascii_def)
  have 4: "overwrite_existing demo_env \<or> [] \<notin> set (map fst [])"
    by simp
  from unpermitted_epithet_empty_word [OF 1 2 3 4, of "[]"] show ?thesis
    unfolding append_Nil .
qed

section \<open>The stand-in on an earlier document\<close>

lemma demo_assign:
  "assign_etymologies (fake_env fake_lexicon disk False) (JStr demo_epithet) (etymologies_of (JObj demo_root)) []
     = (Inr (etymologies_of demo_doc), demo_log)"
proof -
  have w: "to_words (fake_env fake_lexicon disk False) (clean_epithet (fake_env fake_lexicon disk False) demo_epithet) =
     [ascii ''vanhapiika'', ascii ''akka'', ascii ''vanha'', ascii ''piika'']"
    by (simp add: demo_epithet_def clean_epithet_def to_words_def fake_env_def ascii_lower_def
        permitted_def compound_words_def fake_split_def set_update_def ascii_def)
  have g: "dict_get (etymologies_of (JObj demo_root)) (JStr demo_epithet)
            = Inr (JObj [(ascii ''zeta'', JNull), (ascii ''akka'', JStr (ascii ''known''))])"
    by (simp add: etymologies_of_def etymologies_key_def demo_root_def demo_epithet_def ascii_def)
  have s: "search_etymologies (fake_env fake_lexicon disk False) demo_epithet
             (JObj [(ascii ''zeta'', JNull), (ascii ''akka'', JStr (ascii ''known''))]) []
           = (Inr (JObj [(ascii ''akka'', JStr (ascii ''known'')),
                         (ascii ''piika'', JNull),
                         (ascii ''vanha'',
                          JObj [(ascii ''definition'', JStr (ascii ''old'')),
                                (ascii ''url'', JStr (ascii ''https://kaino.kotus.fi/ses/?p=article&etym_id=5''))]),
                         (ascii ''vanhapiika'', JNull),
                         (ascii ''zeta'', JNull)]), demo_log)"
    unfolding search_etymologies_def Let_def w
    by (simp add: fake_env_def search_def word_exists_def answer_def records_def entry_def
        etym_link_def str_int_def demo_log_def ascii_def)
  show ?thesis
    unfolding assign_etymologies_def g
    by (simp add: s) (simp add: etymologies_of_def etymologies_key_def demo_root_def demo_doc_def demo_epithet_def ascii_def)
qed

lemma demo_document: "document demo_root (etymologies_of demo_doc) = demo_doc"
  by (simp add: document_def etymologies_of_def etymologies_key_def demo_root_def demo_doc_def ascii_def)

lemma demo_encodable: "encodable demo_doc"
  by (simp add: demo_doc_def demo_epithet_def utf8_encodable_def surrogate_def ascii_def)

lemma demo_loop:
  "update_loop demo_env [JStr demo_epithet] demo_root (etymologies_of (JObj demo_root)) demo_world
     = (Inr demo_doc, demo_after)"
  unfolding demo_env_def
  by (simp add: demo_world_def demo_assign demo_document persist_def demo_encodable)
     (simp add: fake_env_def demo_after_def demo_document demo_encodable)


lemma demo_epithets: "epithets_of demo_input = [JStr demo_epithet]"
  by (simp add: epithets_of_def demo_input_def)

lemma demo_update:
  "update_etymologies demo_env (JObj demo_root) demo_input demo_world = (Inr demo_doc, demo_after)"
proof -
  have "update_etymologies demo_env (JObj demo_root) demo_input demo_world
          = update_loop demo_env [JStr demo_epithet] demo_root (etymologies_of (JObj demo_root)) demo_world"
    by (simp add: update_etymologies_def demo_input_def etymologies_of_def split: option.splits)
  then show ?thesis by (simp only: demo_loop)
qed

lemma demo_main: "main demo_env demo_world = (Inr demo_doc, demo_after)"
proof -
  have "main demo_env demo_world = update_etymologies demo_env (JObj demo_root) demo_input demo_world"
    by (simp add: main_def demo_world_def)
  then show ?thesis by (simp only: demo_update)
qed


lemma demo_arranges: "arranges demo_env"
  by (simp add: demo_env_def arranges_fake_env)

section \<open>Keys in order\<close>

text \<open>
  C3. In every document handed to the write, and in the document the run ends with,
  the dict of every epithet processed up to then has its word keys in strictly
  ascending order: the i-th write of a run follows the epithets 0 to i. The word dicts
  loaded from the earlier file are taken to have no key twice, as a dict has.
\<close>

theorem persisted_submaps_sorted:
  assumes run: "update_etymologies env etymologies_root epithets_root w = (res, w')"
      and order: "arranges env"
      and unique: "unique_word_keys (etymologies_of etymologies_root)"
  shows "(\<forall>i j e. length (writes w) + i < length (writes w') \<and> j \<le> i
              \<and> epithets_of epithets_root ! j = JStr e
            \<longrightarrow> strictly_sorted (fst (writes w' ! (length (writes w) + i))) e)
       \<and> (\<forall>doc e. res = Inr doc \<and> JStr e \<in> set (epithets_of epithets_root)
            \<longrightarrow> strictly_sorted doc e)"
proof -
  let ?eps = "epithets_of epithets_root"
  from update_etymologies_cases [OF run] show ?thesis
  proof
    assume "w' = w \<and> (\<exists>err. res = Inl err)"
    then show ?thesis by auto
  next
    assume "\<exists>root. etymologies_root = JObj root
             \<and> update_loop env ?eps root (etymologies_of etymologies_root) w = (res, w')"
    then obtain root where
      loop: "update_loop env ?eps root (etymologies_of etymologies_root) w = (res, w')"
      by (elim exE conjE) (rule that)
    have init: "all_strict root [] (etymologies_of etymologies_root)"
      using unique by (simp add: all_strict_def)
    have step: "\<forall>epithet ety ety' log log' seen.
                   all_strict root seen ety \<longrightarrow> assign_etymologies env epithet ety log = (Inr ety', log')
                   \<longrightarrow> all_strict root (seen @ [epithet]) ety'"
      using all_strict_step [OF order] by blast
    from update_loop_trace [where P = "all_strict root" and seen = "[]", OF loop init step]
    obtain news where
      n: "writes w' = writes w @ news \<and> length news \<le> length ?eps
           \<and> (\<forall>i<length news. \<exists>ety. fst (news ! i) = document root ety
                    \<and> all_strict root ([] @ take (Suc i) ?eps) ety)
           \<and> (\<forall>doc. res = Inr doc \<longrightarrow>
                 (\<exists>ety. doc = document root ety \<and> all_strict root ([] @ ?eps) ety)
                 \<and> length news = length ?eps
                 \<and> (\<forall>x \<in> set news. snd x = WriteOk)
                 \<and> (?eps \<noteq> [] \<longrightarrow> etymologies_json w' = Holds doc))"
      by (elim exE) (rule that)
    have a: "strictly_sorted (fst (writes w' ! (length (writes w) + i))) e"
      if "length (writes w) + i < length (writes w')" "j \<le> i" "?eps ! j = JStr e" for i j e
    proof -
      from that(1) n have i: "i < length news" by simp
      with n obtain ety where
        ety: "fst (news ! i) = document root ety" "all_strict root (take (Suc i) ?eps) ety"
        by auto
      from i n that(2) have "j < length (take (Suc i) ?eps)" by simp
      then have "take (Suc i) ?eps ! j \<in> set (take (Suc i) ?eps)" by (rule nth_mem)
      with that(2,3) have "JStr e \<in> set (take (Suc i) ?eps)" by simp
      with ety(2) have "strictly_sorted (document root ety) e" by (simp add: all_strict_def)
      with ety(1) n show ?thesis by (simp add: nth_append)
    qed
    have b: "strictly_sorted doc e" if "res = Inr doc" "JStr e \<in> set ?eps" for doc e
    proof -
      from n that(1) obtain ety where "doc = document root ety" "all_strict root ?eps ety"
        by auto
      with that(2) show ?thesis by (simp add: all_strict_def)
    qed
    from a b show ?thesis by blast
  qed
qed

theorem persisted_submaps_sorted_witness:
  "unique_word_keys (etymologies_of (JObj demo_root))
   \<and> epithets_of demo_input ! 0 = JStr demo_epithet
   \<and> strictly_sorted (fst (writes demo_after ! 0)) demo_epithet
   \<and> strictly_sorted demo_doc demo_epithet"
proof -
  have u: "unique_word_keys (etymologies_of (JObj demo_root))"
    by (simp add: unique_word_keys_def etymologies_of_def etymologies_key_def demo_root_def ascii_def)
  have l: "length (writes demo_world) = 0" "length (writes demo_after) = 1"
    by (simp_all add: demo_world_def demo_after_def)
  note t = persisted_submaps_sorted [OF demo_update demo_arranges u]
  from t [THEN conjunct1, rule_format, of 0 0 demo_epithet] l
  have 1: "strictly_sorted (fst (writes demo_after ! 0)) demo_epithet"
    by (simp add: demo_epithets)
  from t [THEN conjunct2, rule_format, of demo_doc demo_epithet]
  have 2: "strictly_sorted demo_doc demo_epithet"
    by (simp add: demo_epithets)
  from u 1 2 show ?thesis by (simp add: demo_epithets)
qed

section \<open>An interrupted run\<close>

lemma update_loop_step_fails:
  "update_loop env [epithet] root etymologies w1 = (Inl err, w2) \<Longrightarrow>
     update_loop env (epithet # remaining) root etymologies w1 = (Inl err, w2)"
  by (auto split: prod.splits sum.splits)

lemma update_loop_step_file:
  assumes "update_loop env [epithet] root etymologies w1 = (Inl err, w2)"
      and "\<forall>x \<in> set (drop (length (writes w1)) (writes w2)). snd x \<noteq> WriteFails"
  shows "etymologies_json w2 = etymologies_json w1"
proof (cases "assign_etymologies env epithet etymologies (requests w1)")
  case (Pair a log)
  show ?thesis
  proof (cases a)
    case (Inl e)
    with Pair assms(1) show ?thesis by auto
  next
    case (Inr ety')
    obtain b w3 where p: "persist env (document root ety') (w1\<lparr>requests := log\<rparr>) = (b, w3)"
      by (cases "persist env (document root ety') (w1\<lparr>requests := log\<rparr>)")
    show ?thesis
    proof (cases b)
      case e: (Inl e)
      with Pair Inr p assms(1) have w: "w2 = w3" by simp
      from persist_fails [OF p [unfolded e]] assms(2) show ?thesis
        unfolding w by auto
    next
      case (Inr u)
      with Pair \<open>a = Inr ety'\<close> p assms(1) show ?thesis by simp
    qed
  qed
qed

text \<open>
  C4, as amended. When the loop has completed some epithets and the next one ends the
  run with an error other than a failure in the middle of its write (a request fails,
  say, or the output file cannot be opened: the epithet in flight made no write that
  failed after the file was opened), one write was made for each completed
  epithet, each of them succeeded, the output file holds the whole document as it stood
  after the last completed epithet (it is untouched when none was completed), and that
  document has, for every completed epithet, a dict in key order holding all its words.
\<close>

theorem interrupted_run_keeps_completed:
  assumes prefix: "update_loop env completed root etymologies w = (Inr doc, w1)"
      and order: "arranges env"
      and fails: "update_loop env [epithet] root (etymologies_of doc) w1 = (Inl err, w2)"
      and intact: "\<forall>x \<in> set (drop (length (writes w1)) (writes w2)). snd x \<noteq> WriteFails"
  shows "update_loop env (completed @ epithet # remaining) root etymologies w = (Inl err, w2)
       \<and> length (writes w1) = length (writes w) + length completed
       \<and> (\<forall>x \<in> set (drop (length (writes w)) (writes w1)). snd x = WriteOk)
       \<and> etymologies_json w2 = (if completed = [] then etymologies_json w else Holds doc)
       \<and> (\<forall>x \<in> set completed. \<exists>e. x = JStr e \<and> settled env doc e)"
proof -
  have init: "all_settled env root [] etymologies"
    by (simp add: all_settled_def)
  have step: "\<forall>epithet ety ety' log log' seen.
                 all_settled env root seen ety \<longrightarrow> assign_etymologies env epithet ety log = (Inr ety', log')
                 \<longrightarrow> all_settled env root (seen @ [epithet]) ety'"
    using all_settled_step [OF order] by blast
  from update_loop_trace [where P = "all_settled env root" and seen = "[]", OF prefix init step]
  obtain news where
    n: "writes w1 = writes w @ news \<and> length news \<le> length completed
         \<and> (\<forall>i<length news. \<exists>ety. fst (news ! i) = document root ety
                  \<and> all_settled env root ([] @ take (Suc i) completed) ety)
         \<and> (\<forall>d. (Inr doc :: py_error + json) = Inr d \<longrightarrow>
               (\<exists>ety. d = document root ety \<and> all_settled env root ([] @ completed) ety)
               \<and> length news = length completed
               \<and> (\<forall>x \<in> set news. snd x = WriteOk)
               \<and> (completed \<noteq> [] \<longrightarrow> etymologies_json w1 = Holds d))"
    by (elim exE) (rule that)
  then have f: "\<exists>ety. doc = document root ety \<and> all_settled env root completed ety"
    "length news = length completed" "\<forall>x \<in> set news. snd x = WriteOk"
    "completed \<noteq> [] \<longrightarrow> etymologies_json w1 = Holds doc"
    by simp_all
  from n have wr: "writes w1 = writes w @ news" by simp
  have 1: "update_loop env (completed @ epithet # remaining) root etymologies w = (Inl err, w2)"
    by (simp add: update_loop_append prefix update_loop_step_fails [OF fails]
        del: update_loop.simps)
  have 2: "length (writes w1) = length (writes w) + length completed"
    using wr f(2) by simp
  have 3: "\<forall>x \<in> set (drop (length (writes w)) (writes w1)). snd x = WriteOk"
    using wr f(3) by simp
  have 4: "etymologies_json w2 = (if completed = [] then etymologies_json w else Holds doc)"
  proof (cases completed)
    case Nil
    with prefix update_loop_step_file [OF fails intact] show ?thesis by simp
  next
    case (Cons x xs)
    with f(4) update_loop_step_file [OF fails intact] show ?thesis by simp
  qed
  from f(1) have 5: "\<forall>x \<in> set completed. \<exists>e. x = JStr e \<and> settled env doc e"
    by (auto simp: all_settled_def)
  from 1 2 3 4 5 show ?thesis by simp
qed

lemma akka_second:
  "assign_etymologies (fake_env fake_lexicon disk False) (JStr (ascii ''akka'')) (etymologies_of demo_doc) demo_log
     = (Inr (etymologies_of torn_doc), demo_log @ [QsAjaxResults (ascii ''akka'')])"
proof -
  let ?env = "fake_env fake_lexicon disk False"
  have w: "to_words ?env (clean_epithet ?env (ascii ''akka'')) = [ascii ''akka'']"
    by (simp add: clean_epithet_def to_words_def fake_env_def ascii_lower_def
        permitted_def compound_words_def fake_split_def set_update_def ascii_def)
  have g: "dict_get (etymologies_of demo_doc) (JStr (ascii ''akka'')) = Inr (JObj [])"
    by (simp add: etymologies_of_def etymologies_key_def demo_doc_def demo_epithet_def ascii_def)
  have s: "search_etymologies ?env (ascii ''akka'') (JObj []) demo_log
             = (Inr (JObj [(ascii ''akka'', JNull)]), demo_log @ [QsAjaxResults (ascii ''akka'')])"
    unfolding search_etymologies_def Let_def w
    by (simp add: fake_env_def search_def word_exists_def answer_def records_def
        entry_def ascii_def)
  show ?thesis
    unfolding assign_etymologies_def g
    by (simp add: s) (simp add: etymologies_of_def etymologies_key_def demo_doc_def torn_doc_def demo_epithet_def ascii_def)
qed

lemma torn_document: "document demo_root (etymologies_of torn_doc) = torn_doc"
  by (simp add: document_def etymologies_of_def etymologies_key_def demo_root_def torn_doc_def ascii_def)

lemma torn_encodable: "encodable torn_doc"
  by (simp add: torn_doc_def demo_epithet_def utf8_encodable_def surrogate_def ascii_def)

lemma first_step:
  "disk 0 = WriteOk \<Longrightarrow>
   update_loop (fake_env fake_lexicon disk False) [JStr demo_epithet] demo_root
       (etymologies_of (JObj demo_root)) demo_world
     = (Inr demo_doc, demo_after)"
  by (simp add: demo_world_def demo_assign demo_document persist_def demo_encodable)
     (simp add: fake_env_def demo_after_def demo_document demo_encodable)

lemma shut_first:
  "update_loop shut_env [JStr demo_epithet] demo_root (etymologies_of (JObj demo_root)) demo_world
     = (Inr demo_doc, demo_after)"
  unfolding shut_env_def by (rule first_step) simp

lemma shut_second:
  "update_loop shut_env [JStr (ascii ''akka'')] demo_root (etymologies_of demo_doc) demo_after
     = (Inl OSError, shut_after)"
  unfolding shut_env_def
  by (simp add: demo_after_def akka_second torn_document persist_def)
     (simp add: fake_env_def shut_after_def)

theorem interrupted_run_keeps_completed_witness:
  "drop (length (writes demo_after)) (writes shut_after) = [(torn_doc, OpenFails)]
   \<and> update_loop shut_env ([JStr demo_epithet] @ JStr (ascii ''akka'') # [JStr (ascii ''katko'')])
       demo_root (etymologies_of (JObj demo_root)) demo_world
     = (Inl OSError, shut_after)
   \<and> length (writes demo_after) = 1
   \<and> writes shut_after = [(demo_doc, WriteOk), (torn_doc, OpenFails)]
   \<and> etymologies_json shut_after = Holds demo_doc
   \<and> settled shut_env demo_doc demo_epithet"
proof -
  have i: "\<forall>x \<in> set (drop (length (writes demo_after)) (writes shut_after)). snd x \<noteq> WriteFails"
    by (simp add: demo_after_def shut_after_def)
  have a: "arranges shut_env"
    by (simp add: shut_env_def arranges_fake_env)
  have l: "length (writes demo_world) = 0" "writes shut_after = [(demo_doc, WriteOk), (torn_doc, OpenFails)]"
    "drop (length (writes demo_after)) (writes shut_after) = [(torn_doc, OpenFails)]"
    by (simp_all add: demo_world_def demo_after_def shut_after_def)
  from interrupted_run_keeps_completed [OF shut_first a shut_second i, of "[JStr (ascii ''katko'')]"] l
  show ?thesis by simp
qed

lemma torn_first:
  "update_loop torn_env [JStr demo_epithet] demo_root (etymologies_of (JObj demo_root)) demo_world
     = (Inr demo_doc, demo_after)"
  unfolding torn_env_def by (rule first_step) simp

lemma torn_run:
  "update_loop torn_env [JStr demo_epithet, JStr (ascii ''akka'')] demo_root
       (etymologies_of (JObj demo_root)) demo_world
     = (Inl OSError, torn_after)"
proof -
  have "update_loop torn_env ([JStr demo_epithet] @ [JStr (ascii ''akka'')]) demo_root
          (etymologies_of (JObj demo_root)) demo_world
        = update_loop torn_env [JStr (ascii ''akka'')] demo_root (etymologies_of demo_doc) demo_after"
    by (simp only: update_loop_append torn_first prod.case sum.case)
  also have "\<dots> = (Inl OSError, torn_after)"
    unfolding torn_env_def
    by (simp add: demo_after_def akka_second torn_document persist_def torn_encodable)
       (simp add: fake_env_def torn_after_def)
  finally show ?thesis by simp
qed

text \<open>
  C4, as the claim states it, fails: the first epithet is completed and persisted, the
  write of the second fails after the file was opened, and the file then holds a prefix
  of the second document, which the next run cannot load; the work of the completed
  epithet is lost with it.
\<close>

theorem interrupted_write_loses_completed_counterexample:
  "update_loop torn_env [JStr demo_epithet] demo_root (etymologies_of (JObj demo_root)) demo_world
     = (Inr demo_doc, demo_after)
   \<and> etymologies_json demo_after = Holds demo_doc
   \<and> fst (update_loop torn_env [JStr demo_epithet, JStr (ascii ''akka'')] demo_root
            (etymologies_of (JObj demo_root)) demo_world) = Inl OSError
   \<and> etymologies_json (snd (update_loop torn_env [JStr demo_epithet, JStr (ascii ''akka'')] demo_root
            (etymologies_of (JObj demo_root)) demo_world)) = Torn torn_doc
   \<and> fst (main torn_env (snd (update_loop torn_env [JStr demo_epithet, JStr (ascii ''akka'')] demo_root
            (etymologies_of (JObj demo_root)) demo_world))) = Inl JSONDecodeError"
  unfolding torn_first torn_run fst_conv snd_conv
  by (simp add: demo_after_def torn_after_def main_def)

section \<open>What a run leaves alone\<close>

text \<open>
  C9. A run of \<open>main\<close> leaves the input file as it was, and every document it hands to
  the write, as well as the document it ends with, is a dict whose keys other than
  \<open>etymologies\<close> are those of the loaded document, with the same values in the same
  order.
\<close>

theorem only_etymologies_key_changes:
  assumes "main env w = (res, w')"
  shows "epithets_json w' = epithets_json w
       \<and> (\<forall>x \<in> set (drop (length (writes w)) (writes w')).
             other_keys (fst x) = other_keys (loaded w) \<and> other_keys (fst x) \<noteq> None)
       \<and> (\<forall>doc. res = Inr doc \<longrightarrow>
             other_keys doc = other_keys (loaded w) \<and> other_keys doc \<noteq> None)"
proof -
  from main_cases [OF assms] show ?thesis
  proof
    assume "w' = w \<and> (\<exists>err. res = Inl err)"
    then show ?thesis by auto
  next
    assume "\<exists>epithets_root. epithets_json w = Holds epithets_root
             \<and> update_etymologies env (loaded w) epithets_root w = (res, w')"
    then obtain epithets_root where
      u: "update_etymologies env (loaded w) epithets_root w = (res, w')"
      by (elim exE conjE) (rule that)
    from update_etymologies_cases [OF u] show ?thesis
    proof
      assume "w' = w \<and> (\<exists>err. res = Inl err)"
      then show ?thesis by auto
    next
      assume "\<exists>root. loaded w = JObj root
             \<and> update_loop env (epithets_of epithets_root) root (etymologies_of (loaded w)) w
                 = (res, w')"
      then obtain root where
        l: "loaded w = JObj root"
        and loop: "update_loop env (epithets_of epithets_root) root (etymologies_of (loaded w)) w
                 = (res, w')"
        by (elim exE conjE) (rule that)
      have k1: "other_keys (document root ety) = other_keys (loaded w)" for ety
        by (simp add: other_keys_document l)
      have k2: "other_keys (loaded w) \<noteq> None"
        by (simp add: l other_keys_def)
      have "True" "\<forall>epithet ety ety' log log' (seen :: json list).
             True \<longrightarrow> assign_etymologies env epithet ety log = (Inr ety', log') \<longrightarrow> True"
        by simp_all
      from update_loop_trace [where P = "\<lambda>seen ety. True" and seen = "[]", OF loop this]
      obtain news where
        n: "writes w' = writes w @ news \<and> length news \<le> length (epithets_of epithets_root)
           \<and> (\<forall>i<length news. \<exists>ety. fst (news ! i) = document root ety \<and> True)
           \<and> (\<forall>doc. res = Inr doc \<longrightarrow>
                 (\<exists>ety. doc = document root ety \<and> True)
                 \<and> length news = length (epithets_of epithets_root)
                 \<and> (\<forall>x \<in> set news. snd x = WriteOk)
                 \<and> (epithets_of epithets_root \<noteq> [] \<longrightarrow> etymologies_json w' = Holds doc))"
        by (elim exE) (rule that)
      have a: "other_keys (fst x) = other_keys (loaded w) \<and> other_keys (fst x) \<noteq> None"
        if "x \<in> set (drop (length (writes w)) (writes w'))" for x
      proof -
        from that n have "x \<in> set news" by simp
        then obtain i where "i < length news" "news ! i = x" by (auto simp: in_set_conv_nth)
        with n obtain ety where "fst x = document root ety" by auto
        with k1 [of ety] k2 show ?thesis by simp
      qed
      have b: "other_keys doc = other_keys (loaded w) \<and> other_keys doc \<noteq> None"
        if "res = Inr doc" for doc
      proof -
        from that n obtain ety where "doc = document root ety" by auto
        with k1 [of ety] k2 show ?thesis by simp
      qed
      from update_loop_frame [OF loop] a b show ?thesis by blast
    qed
  qed
qed

theorem only_etymologies_key_changes_witness:
  "epithets_json (snd (main demo_env demo_world)) = Holds demo_input
   \<and> other_keys demo_doc = Some [(ascii ''note'', JStr (ascii ''keep''))]
   \<and> other_keys (loaded demo_world) = Some [(ascii ''note'', JStr (ascii ''keep''))]"
proof -
  note t = only_etymologies_key_changes [OF demo_main]
  from t [THEN conjunct1]
  have 1: "epithets_json demo_after = epithets_json demo_world" .
  from t [THEN conjunct2, THEN conjunct2, rule_format, of demo_doc]
  have 2: "other_keys demo_doc = other_keys (loaded demo_world)"
    by simp
  have 3: "other_keys (loaded demo_world) = Some [(ascii ''note'', JStr (ascii ''keep''))]"
    by (simp add: loaded_def demo_world_def other_keys_def demo_root_def etymologies_key_def ascii_def)
  have 4: "epithets_json demo_world = Holds demo_input"
    by (simp add: demo_world_def)
  from 1 2 3 4 show ?thesis
    by (simp add: demo_main)
qed

section \<open>Running again\<close>

lemma settled_document_root:
  "settled env (document root etymologies) e = settled env (document root' etymologies) e"
  by (simp add: settled_def submap_def)

lemma all_settled_root:
  "all_settled env root seen etymologies = all_settled env root' seen etymologies"
  unfolding all_settled_def using settled_document_root [of env root etymologies _ root'] by simp

lemma settled_is_dict:
  assumes "settled env (document root etymologies) e"
  shows "\<exists>store. etymologies = JObj store"
proof (cases etymologies)
  case (JObj store)
  then show ?thesis by simp
qed (use assms in \<open>simp_all add: settled_def submap_def\<close>)

lemma update_loop_encodable:
  "update_loop env eps root etymologies w = (Inr doc, w') \<Longrightarrow> eps \<noteq> [] \<Longrightarrow> encodable doc"
proof (induction eps arbitrary: etymologies w)
  case Nil
  then show ?case by simp
next
  case (Cons epithet eps)
  obtain a log where al: "assign_etymologies env epithet etymologies (requests w) = (a, log)"
    by (cases "assign_etymologies env epithet etymologies (requests w)")
  show ?case
  proof (cases a)
    case (Inl err)
    with al Cons.prems(1) show ?thesis by simp
  next
    case (Inr ety')
    obtain b w2 where p: "persist env (document root ety') (w\<lparr>requests := log\<rparr>) = (b, w2)"
      by (cases "persist env (document root ety') (w\<lparr>requests := log\<rparr>)")
    show ?thesis
    proof (cases b)
      case (Inl err)
      with al Inr p Cons.prems(1) show ?thesis by simp
    next
      case ok: (Inr u)
      with persist_ok [of env "document root ety'" "w\<lparr>requests := log\<rparr>" u w2] p
      have enc: "encodable (document root ety')" by simp
      from al Inr p ok Cons.prems(1) have
        rest: "update_loop env eps root ety' w2 = (Inr doc, w')" by simp
      show ?thesis
      proof (cases eps)
        case Nil
        with rest enc show ?thesis by simp
      next
        case (Cons x xs)
        with Cons.IH [OF rest] show ?thesis by simp
      qed
    qed
  qed
qed

lemma update_loop_idle:
  assumes "\<not> overwrite_existing env" and "arranges env"
      and "all_settled env root eps etymologies"
      and "eps \<noteq> [] \<longrightarrow> encodable (document root etymologies)"
  shows "requests (snd (update_loop env eps root etymologies w)) = requests w
       \<and> (fst (update_loop env eps root etymologies w) = Inr (document root etymologies)
           \<or> fst (update_loop env eps root etymologies w) = Inl OSError)
       \<and> ((\<forall>n. storage env n = WriteOk) \<longrightarrow>
             fst (update_loop env eps root etymologies w) = Inr (document root etymologies))"
  using assms(3,4)
proof (induction eps arbitrary: w)
  case Nil
  then show ?case by simp
next
  case (Cons epithet eps)
  from Cons.prems(1) obtain e where
    e: "epithet = JStr e" "settled env (document root etymologies) e"
    and rest: "all_settled env root eps etymologies"
    by (auto simp: all_settled_def)
  from Cons.prems(2) have enc: "encodable (document root etymologies)"
    and enc': "eps \<noteq> [] \<longrightarrow> encodable (document root etymologies)"
    by simp_all
  from settled_is_dict [OF e(2)] obtain store where st: "etymologies = JObj store" by blast
  from assign_etymologies_skip [OF assms(1,2) e(2) [unfolded st]]
  have a: "assign_etymologies env epithet etymologies (requests w) = (Inr etymologies, requests w)"
    by (simp add: e(1) st)
  let ?doc = "document root etymologies"
  let ?w2 = "w\<lparr>writes := writes w @ [(?doc, WriteOk)], etymologies_json := Holds ?doc\<rparr>"
  show ?case
  proof (cases "storage env (length (writes w))")
    case OpenFails
    then have nf: "\<not> (\<forall>n. storage env n = WriteOk)"
      by (auto intro!: exI [where x = "length (writes w)"])
    from OpenFails have "requests (snd (update_loop env (epithet # eps) root etymologies w)) = requests w"
      "fst (update_loop env (epithet # eps) root etymologies w) = Inl OSError"
      by (simp_all add: a persist_def)
    with nf show ?thesis by blast
  next
    case WriteFails
    then have nf: "\<not> (\<forall>n. storage env n = WriteOk)"
      by (auto intro!: exI [where x = "length (writes w)"])
    from WriteFails have "requests (snd (update_loop env (epithet # eps) root etymologies w)) = requests w"
      "fst (update_loop env (epithet # eps) root etymologies w) = Inl OSError"
      by (simp_all add: a persist_def enc)
    with nf show ?thesis by blast
  next
    case WriteOk
    then have "update_loop env (epithet # eps) root etymologies w
                 = update_loop env eps root etymologies ?w2"
      by (simp add: a persist_def enc)
    with Cons.IH [OF rest enc', of ?w2] show ?thesis by simp
  qed
qed

lemma update_etymologies_reaches:
  assumes "update_etymologies env etymologies_root epithets_root w = (Inr doc, w')"
  shows "\<exists>root x. etymologies_root = JObj root
           \<and> getitem epithets_root (ascii ''epithets'') = Inr x
           \<and> py_iter x = Inr (epithets_of epithets_root)"
proof (cases etymologies_root)
  case (JObj root)
  show ?thesis
  proof (cases "getitem epithets_root (ascii ''epithets'')")
    case (Inl err)
    with assms JObj show ?thesis by (auto simp: update_etymologies_def)
  next
    case (Inr x)
    show ?thesis
    proof (cases "py_iter x")
      case (Inl err)
      with assms JObj Inr show ?thesis by (auto simp: update_etymologies_def)
    next
      case es: (Inr es)
      with Inr JObj show ?thesis by (simp add: epithets_of_def)
    qed
  qed
qed (use assms in \<open>auto simp: update_etymologies_def\<close>)

lemma update_loop_idle_file:
  assumes "\<not> overwrite_existing env" and "arranges env"
      and "all_settled env root eps etymologies"
      and "\<forall>n. storage env n = WriteOk"
      and "eps \<noteq> [] \<longrightarrow> encodable (document root etymologies)"
  shows "etymologies_json (snd (update_loop env eps root etymologies w))
           = (if eps = [] then etymologies_json w else Holds (document root etymologies))"
  using assms(3,5)
proof (induction eps arbitrary: w)
  case Nil
  then show ?case by simp
next
  case (Cons epithet eps)
  from Cons.prems(1) obtain e where
    e: "epithet = JStr e" "settled env (document root etymologies) e"
    and rest: "all_settled env root eps etymologies"
    by (auto simp: all_settled_def)
  from Cons.prems(2) have enc: "encodable (document root etymologies)"
    and enc': "eps \<noteq> [] \<longrightarrow> encodable (document root etymologies)"
    by simp_all
  from settled_is_dict [OF e(2)] obtain store where st: "etymologies = JObj store" by blast
  from assign_etymologies_skip [OF assms(1,2) e(2) [unfolded st]]
  have a: "assign_etymologies env epithet etymologies (requests w) = (Inr etymologies, requests w)"
    by (simp add: e(1) st)
  let ?doc = "document root etymologies"
  let ?w2 = "w\<lparr>writes := writes w @ [(?doc, WriteOk)], etymologies_json := Holds ?doc\<rparr>"
  have "update_loop env (epithet # eps) root etymologies w
          = update_loop env eps root etymologies ?w2"
    using assms(4) by (simp add: a persist_def enc)
  with Cons.IH [OF rest enc', of ?w2] show ?case by simp
qed

lemma update_again:
  assumes first: "update_etymologies env1 etymologies_root epithets_root w0 = (Inr doc, w1)"
      and order1: "arranges env1" and order2: "arranges env2"
      and same: "lower env2 = lower env1" "finn_split env2 = finn_split env1"
      and keep: "\<not> overwrite_existing env2"
  shows "requests (snd (update_etymologies env2 doc epithets_root w)) = requests w
       \<and> (fst (update_etymologies env2 doc epithets_root w) = Inr doc
           \<or> fst (update_etymologies env2 doc epithets_root w) = Inl OSError)
       \<and> ((\<forall>n. storage env2 n = WriteOk) \<longrightarrow>
             fst (update_etymologies env2 doc epithets_root w) = Inr doc
             \<and> etymologies_json (snd (update_etymologies env2 doc epithets_root w))
                 = (if epithets_of epithets_root = [] then etymologies_json w else Holds doc))"
proof -
  let ?eps = "epithets_of epithets_root"
  from update_etymologies_reaches [OF first] obtain root x where
    r: "etymologies_root = JObj root" "getitem epithets_root (ascii ''epithets'') = Inr x"
       "py_iter x = Inr ?eps"
    by blast
  from update_etymologies_cases [OF first] r(1) have
    loop: "update_loop env1 ?eps root (etymologies_of etymologies_root) w0 = (Inr doc, w1)"
    by auto
  have init: "all_settled env1 root [] (etymologies_of etymologies_root)"
    by (simp add: all_settled_def)
  have step: "\<forall>epithet ety ety' log log' seen.
                 all_settled env1 root seen ety \<longrightarrow> assign_etymologies env1 epithet ety log = (Inr ety', log')
                 \<longrightarrow> all_settled env1 root (seen @ [epithet]) ety'"
    using all_settled_step [OF order1] by blast
  from update_loop_trace [where P = "all_settled env1 root" and seen = "[]", OF loop init step]
  obtain ety where
    d: "doc = document root ety" and s1: "all_settled env1 root ?eps ety"
    by auto
  let ?root' = "AList.update etymologies_key ety root"
  have doc: "doc = JObj ?root'" using d by (simp add: document_def)
  have "all_settled env2 root ?eps ety"
    using s1 settled_env [OF order1 order2 same] by (simp add: all_settled_def)
  then have s2: "all_settled env2 ?root' ?eps ety"
    using all_settled_root by blast
  have same_doc: "document ?root' ety = doc"
    by (simp add: doc document_def)
  have e: "etymologies_of (JObj ?root') = ety"
    using d doc etymologies_of_document [of root ety] by simp
  have run2: "update_etymologies env2 doc epithets_root w = update_loop env2 ?eps ?root' ety w"
    unfolding doc using r(2,3) e
    by (simp add: update_etymologies_def etymologies_of_def split: option.splits sum.splits)
  from update_loop_encodable [OF loop] same_doc
  have enc: "?eps \<noteq> [] \<longrightarrow> encodable (document ?root' ety)"
    by simp
  have kept: "(\<forall>n. storage env2 n = WriteOk) \<longrightarrow>
      etymologies_json (snd (update_loop env2 ?eps ?root' ety w))
        = (if ?eps = [] then etymologies_json w else Holds (document ?root' ety))"
    using update_loop_idle_file [OF keep order2 s2 _ enc, of w] by blast
  from update_loop_idle [OF keep order2 s2 enc, of w] kept
  show ?thesis
    unfolding run2 same_doc by blast
qed

lemma main_reaches:
  assumes "main env w = (Inr doc, w')"
  shows "\<exists>epithets_root. epithets_json w = Holds epithets_root
           \<and> (\<forall>d. etymologies_json w \<noteq> Torn d)
           \<and> update_etymologies env (loaded w) epithets_root w = (Inr doc, w')"
  using assms
  by (cases "epithets_json w"; cases "etymologies_json w") (auto simp: main_def loaded_def)

lemma main_update:
  assumes "epithets_json w = Holds epithets_root" and "\<forall>d. etymologies_json w \<noteq> Torn d"
  shows "main env w = update_etymologies env (loaded w) epithets_root w"
  using assms
  by (cases "etymologies_json w") (auto simp: main_def loaded_def)

text \<open>
  C2. After a run of \<open>main\<close> that ended well, a second run in the world the first one
  left (same input file, the output file as the first run left it), with
  \<open>OVERWRITE_EXISTING\<close> false, sends no request; it ends with the document the first run
  ended with and leaves the output file as it found it, unless a write of the output
  file fails, and a failed write is the only way it can end otherwise. The two runs
  share \<open>str.lower\<close> and the splitter, and may iterate sets in different orders.
\<close>

theorem second_run_is_idle:
  assumes first: "main env1 w0 = (Inr doc, w1)"
      and order1: "arranges env1" and order2: "arranges env2"
      and same: "lower env2 = lower env1" "finn_split env2 = finn_split env1"
      and keep: "\<not> overwrite_existing env2"
  shows "requests (snd (main env2 w1)) = requests w1
       \<and> (fst (main env2 w1) = Inr doc \<or> fst (main env2 w1) = Inl OSError)
       \<and> ((\<forall>n. storage env2 n = WriteOk) \<longrightarrow>
             fst (main env2 w1) = Inr doc
             \<and> etymologies_json (snd (main env2 w1)) = etymologies_json w1)"
proof -
  from main_reaches [OF first] obtain epithets_root where
    ep: "epithets_json w0 = Holds epithets_root"
    and nt: "\<forall>d. etymologies_json w0 \<noteq> Torn d"
    and u: "update_etymologies env1 (loaded w0) epithets_root w0 = (Inr doc, w1)"
    by (elim exE conjE) (rule that)
  let ?eps = "epithets_of epithets_root"
  from update_etymologies_reaches [OF u] obtain root x where
    r: "loaded w0 = JObj root" "getitem epithets_root (ascii ''epithets'') = Inr x"
       "py_iter x = Inr ?eps"
    by blast
  from update_etymologies_cases [OF u] r(1) have
    loop: "update_loop env1 ?eps root (etymologies_of (loaded w0)) w0 = (Inr doc, w1)"
    by auto
  from update_loop_frame [OF loop] ep have ep1: "epithets_json w1 = Holds epithets_root"
    by simp
  show ?thesis
  proof (cases "?eps = []")
    case True
    with loop have w: "w1 = w0" and d: "doc = document root (etymologies_of (loaded w0))"
      by auto
    have "update_etymologies env2 (loaded w0) epithets_root w0
            = update_loop env2 ?eps root (etymologies_of (loaded w0)) w0"
      unfolding r(1) using r(2,3)
      by (simp add: update_etymologies_def etymologies_of_def split: option.splits sum.splits)
    with True d have "update_etymologies env2 (loaded w0) epithets_root w0 = (Inr doc, w0)"
      by simp
    with main_update [OF ep nt, of env2] w have "main env2 w1 = (Inr doc, w1)"
      by simp
    then show ?thesis by simp
  next
    case False
    have "True" "\<forall>epithet ety ety' log log' (seen :: json list).
             True \<longrightarrow> assign_etymologies env1 epithet ety log = (Inr ety', log') \<longrightarrow> True"
      by simp_all
    from update_loop_trace [where P = "\<lambda>seen ety. True" and seen = "[]", OF loop this] False
    have h: "etymologies_json w1 = Holds doc"
      by auto
    then have l1: "loaded w1 = doc" and nt1: "\<forall>d. etymologies_json w1 \<noteq> Torn d"
      by (simp_all add: loaded_def)
    from main_update [OF ep1 nt1, of env2] l1
    have m: "main env2 w1 = update_etymologies env2 doc epithets_root w1"
      by simp
    from update_again [OF u order1 order2 same keep, of w1] False h
    show ?thesis
      unfolding m by simp
  qed
qed

theorem second_run_is_idle_witness:
  "requests (snd (main demo_env demo_after)) = demo_log
   \<and> fst (main demo_env demo_after) = Inr demo_doc
   \<and> etymologies_json (snd (main demo_env demo_after)) = Holds demo_doc"
proof -
  have k: "\<not> overwrite_existing demo_env" by (simp add: demo_fields)
  have ok: "\<forall>n. storage demo_env n = WriteOk" by (simp add: demo_fields)
  have a: "requests demo_after = demo_log" "etymologies_json demo_after = Holds demo_doc"
    by (simp_all add: demo_after_def)
  note t = second_run_is_idle [OF demo_main demo_arranges demo_arranges refl refl k]
  from t [THEN conjunct1] t [THEN conjunct2, THEN conjunct2, THEN mp, OF ok] a
  show ?thesis by simp
qed

section \<open>Writing the output file\<close>














end
